theory Spec2Isabelle
  imports Main "HOL-Library.Word"
begin

unbundle bit_operations_syntax

section \<open>Egihash: a shallow embedding of egihash.cpp\<close>

text \<open>
  The definitions follow \<^verbatim>\<open>src/egihash.cpp\<close> and \<^verbatim>\<open>src/egihash.h\<close> function by
  function and keep their names.

  Conventions of the embedding.
  \<^item> \<^verbatim>\<open>uint8_t\<close> is \<open>8 word\<close>. \<^verbatim>\<open>int32_t\<close> and \<^verbatim>\<open>uint32_t\<close> are both \<open>32 word\<close>: the
    code converts freely between the two, which never changes a bit; where a value is
    widened to 64 bits the sign extension is written out (\<open>scast\<close>).
  \<^item> \<^verbatim>\<open>size_t\<close> and \<^verbatim>\<open>uint64_t\<close> values are \<open>nat\<close>, with the wrap-around modulo
    \<open>2 ^ 64\<close> written out wherever the code's arithmetic can reach it.
  \<^item> A \<^verbatim>\<open>std::string\<close> holding bytes is a \<open>u8 list\<close>; a \<^verbatim>\<open>std::vector<int32_t>\<close> is a
    \<open>u32 list\<close>.
  \<^item> The Keccak primitives \<^verbatim>\<open>::sha3_256\<close> and \<^verbatim>\<open>::sha3_512\<close> come from keccak-tiny, which is
    not part of the repository; they are parameters \<open>H256\<close> and \<open>H512\<close> of type
    \<open>u8 list \<Rightarrow> u8 list\<close>. keccak-tiny returns a non-zero code only for a null buffer
    or an output buffer longer than the digest, which \<^verbatim>\<open>sha3_base\<close> never passes, so the
    \<^verbatim>\<open>throw\<close> in \<^verbatim>\<open>compute_hash\<close> has no run and the primitives are total functions.
  \<^item> Where raw memory is copied (\<^verbatim>\<open>memcpy\<close>, \<^verbatim>\<open>reinterpret_cast\<close>, \<^verbatim>\<open>ofstream::write\<close> of an
    integer) the host is little-endian, as on the x86 targets the code is built for.
  \<^item> A \<^verbatim>\<open>throw hash_exception(msg)\<close> is the value \<open>Inl (hash_exception msg)\<close>. Executions
    that C++ leaves undefined (an index past the end of a vector, a remainder by zero)
    are the value \<open>Inl undefined_behaviour\<close>, so that no such execution hides behind a
    total HOL function.
\<close>

type_synonym u8 = "8 word"
type_synonym u32 = "32 word"
type_synonym u64 = "64 word"

datatype error = hash_exception string | undefined_behaviour

subsection \<open>Constants (namespace \<^verbatim>\<open>constants\<close>)\<close>

definition DAG_MAGIC_BYTES :: "u8 list" where
  "DAG_MAGIC_BYTES = map (of_nat \<circ> of_char) ''EGIHASH_DAG''"

definition DAG_FILE_HEADER_SIZE :: nat where
  "DAG_FILE_HEADER_SIZE = (length DAG_MAGIC_BYTES + 1) + (5 * 8) + (3 * 4) + 2"

definition CALLBACK_FREQUENCY :: nat where "CALLBACK_FREQUENCY = 1"
definition MAJOR_VERSION :: u32 where "MAJOR_VERSION = 1"
definition REVISION :: u32 where "REVISION = 23"
definition MINOR_VERSION :: u32 where "MINOR_VERSION = 0"
definition WORD_BYTES :: nat where "WORD_BYTES = 4"
definition DATASET_BYTES_INIT :: nat where "DATASET_BYTES_INIT = 2 ^ 30"
definition DATASET_BYTES_GROWTH :: nat where "DATASET_BYTES_GROWTH = 2 ^ 23"
definition CACHE_BYTES_INIT :: nat where "CACHE_BYTES_INIT = 2 ^ 24"
definition CACHE_BYTES_GROWTH :: nat where "CACHE_BYTES_GROWTH = 2 ^ 17"
definition EPOCH_LENGTH :: nat where "EPOCH_LENGTH = 30000"
definition MIX_BYTES :: nat where "MIX_BYTES = 128"
definition HASH_BYTES :: nat where "HASH_BYTES = 64"
definition DATASET_PARENTS :: nat where "DATASET_PARENTS = 256"
definition CACHE_ROUNDS :: nat where "CACHE_ROUNDS = 3"
definition ACCESSES :: nat where "ACCESSES = 64"

lemmas constants_defs =
  CALLBACK_FREQUENCY_def WORD_BYTES_def DATASET_BYTES_INIT_def DATASET_BYTES_GROWTH_def
  CACHE_BYTES_INIT_def CACHE_BYTES_GROWTH_def EPOCH_LENGTH_def MIX_BYTES_def HASH_BYTES_def
  DATASET_PARENTS_def CACHE_ROUNDS_def ACCESSES_def

text \<open>Unsigned 64-bit arithmetic on \<open>nat\<close>: the result of \<^verbatim>\<open>+\<close>, \<^verbatim>\<open>-\<close> and \<^verbatim>\<open>*\<close> on
  \<^verbatim>\<open>uint64_t\<close> operands.\<close>

definition add64 :: "nat \<Rightarrow> nat \<Rightarrow> nat" where
  "add64 a b = (a + b) mod 2 ^ 64"

definition sub64 :: "nat \<Rightarrow> nat \<Rightarrow> nat" where
  "sub64 a b = (a mod 2 ^ 64 + 2 ^ 64 - b mod 2 ^ 64) mod 2 ^ 64"

definition mul64 :: "nat \<Rightarrow> nat \<Rightarrow> nat" where
  "mul64 a b = (a * b) mod 2 ^ 64"

subsection \<open>The word codec: \<^verbatim>\<open>decode_int\<close>, \<^verbatim>\<open>zpad\<close>, \<^verbatim>\<open>encode_int\<close>\<close>

text \<open>\<^verbatim>\<open>decode_int(data, dataEnd)\<close>: the argument is the byte range from \<^verbatim>\<open>data\<close> to
  \<^verbatim>\<open>dataEnd\<close> inclusive. The guard \<^verbatim>\<open>dataEnd < data + 3\<close> holds exactly when that range has
  fewer than four bytes.\<close>

definition decode_int :: "u8 list \<Rightarrow> u32" where
  "decode_int data =
     (if length data < 4 then 0
      else push_bit 24 (ucast (data ! 0)) OR push_bit 16 (ucast (data ! 1))
           OR push_bit 8 (ucast (data ! 2)) OR ucast (data ! 3))"

text \<open>\<^verbatim>\<open>zpad(str, length)\<close> appends \<^verbatim>\<open>max(length - str.length(), 0)\<close> zero bytes. The
  subtraction is on \<^verbatim>\<open>size_t\<close>; every caller passes a string of at most \<open>length\<close> bytes
  (see \<open>length_encode_int\<close>), where it agrees with the subtraction on \<open>nat\<close>.\<close>

definition zpad :: "u8 list \<Rightarrow> nat \<Rightarrow> u8 list" where
  "zpad str len = str @ replicate (max (len - length str) 0) 0"

text \<open>\<^verbatim>\<open>ss << hex << x\<close>: the hexadecimal digits of \<open>x\<close>, most significant first, without
  leading zeros. For an \<^verbatim>\<open>int32_t\<close> the stream prints the digits of the value read as
  unsigned.\<close>

fun hex_str :: "nat \<Rightarrow> nat list" where
  "hex_str n = (if n < 16 then [n] else hex_str (n div 16) @ [n mod 16])"

declare hex_str.simps [simp del]

text \<open>The loop of \<^verbatim>\<open>encode_int\<close> over \<^verbatim>\<open>encoded\<close>, two hexadecimal digits at a time
  (\<^verbatim>\<open>stoi(encoded.substr(i, 2), 0, 16)\<close>).\<close>

fun hex_pairs :: "nat list \<Rightarrow> u8 list" where
  "hex_pairs (a # b # ds) = of_nat (16 * a + b) # hex_pairs ds"
| "hex_pairs [a] = [of_nat a]"
| "hex_pairs [] = []"

definition encode_int :: "u32 \<Rightarrow> u8 list" where
  "encode_int x =
     (if x = 0 then []
      else let hex = hex_str (unat x);
               encoded = replicate (length hex mod 2) 0 @ hex
           in hex_pairs encoded)"

subsection \<open>\<^verbatim>\<open>is_prime\<close>, \<^verbatim>\<open>fnv\<close>\<close>

text \<open>\<^verbatim>\<open>for (auto i = 2; i <= std::sqrt(x); i++) if ((x % i) == 0) return false;\<close>
  The test \<^verbatim>\<open>i <= std::sqrt(x)\<close> is on doubles. For \<open>x < 2 ^ 64\<close> every \<open>i\<close> with
  \<open>i * i \<le> x\<close> passes it (the square root is correctly rounded and monotone), and an
  \<open>i\<close> that passes it with \<open>i * i > x\<close> is below \<open>x\<close>, so that it returns \<^verbatim>\<open>false\<close> only
  for a composite \<open>x\<close>, for which an earlier \<open>i\<close> has returned \<^verbatim>\<open>false\<close> already. The
  loop therefore returns what the loop with the exact test \<open>i * i \<le> x\<close> returns.\<close>

function is_prime_loop :: "nat \<Rightarrow> nat \<Rightarrow> bool" where
  "is_prime_loop x i =
     (if i * i \<le> x then (if x mod i = 0 then False else is_prime_loop x (i + 1)) else True)"
  by pat_completeness auto
termination
proof (relation "measure (\<lambda>(x, i). x + 1 - i)")
  show "wf (measure (\<lambda>(x, i). x + 1 - i))" by simp
next
  fix x i :: nat
  assume a: "i * i \<le> x"
  have "i \<le> i * i" by (cases i) simp_all
  then have "i \<le> x" using a by linarith
  then show "((x, i + 1), (x, i)) \<in> measure (\<lambda>(x, i). x + 1 - i)" by simp
qed

declare is_prime_loop.simps [simp del]

definition is_prime :: "nat \<Rightarrow> bool" where
  "is_prime x = is_prime_loop x 2"

text \<open>\<^verbatim>\<open>((v1 * FNV_PRIME) ^ v2) % FNV_MODULUS\<close>: the product and the XOR are on
  \<^verbatim>\<open>uint32_t\<close>; the remainder by \<open>2 ^ 32\<close> changes nothing.\<close>

definition FNV_PRIME :: u32 where "FNV_PRIME = 0x01000193"

definition fnv :: "u32 \<Rightarrow> u32 \<Rightarrow> u32" where
  "fnv v1 v2 = (v1 * FNV_PRIME) XOR v2"


subsection \<open>Sizing: \<^verbatim>\<open>get_cache_size\<close> and \<^verbatim>\<open>get_full_size\<close>\<close>

text \<open>Both functions compute on \<^verbatim>\<open>uint64_t\<close>: the 32-bit constants are promoted when they
  meet \<^verbatim>\<open>block_number / EPOCH_LENGTH\<close>. \<open>is_prime\<close> accepts 0, 1, 2 and 3 without a test, which
  is what makes the loops below terminate.\<close>

lemma is_prime_small: "x < 4 \<Longrightarrow> is_prime x"
  by (simp add: is_prime_def is_prime_loop.simps)

lemma sub64_less: "b \<le> a \<Longrightarrow> 0 < b \<Longrightarrow> b < 2 ^ 64 \<Longrightarrow> sub64 a b < a"
proof -
  assume ba: "b \<le> a" and b0: "0 < b" and bb: "b < 2 ^ 64"
  show ?thesis
  proof (cases "a < 2 ^ 64")
    case True
    then have "sub64 a b = (a - b + 2 ^ 64) mod 2 ^ 64"
      using ba bb by (simp add: sub64_def)
    also have "\<dots> = a - b" using True by simp
    finally show ?thesis using ba b0 by simp
  next
    case False
    have "sub64 a b < 2 ^ 64" by (simp add: sub64_def)
    then show ?thesis using False by simp
  qed
qed

function cache_size_loop :: "nat \<Rightarrow> nat" where
  "cache_size_loop cache_size =
     (if \<not> is_prime (cache_size div HASH_BYTES)
      then cache_size_loop (sub64 cache_size (2 * HASH_BYTES)) else cache_size)"
  by pat_completeness auto
termination
proof (relation "measure (\<lambda>cache_size. cache_size)")
  show "wf (measure (\<lambda>cache_size. cache_size))" by simp
next
  fix cache_size :: nat
  assume "\<not> is_prime (cache_size div HASH_BYTES)"
  then have "\<not> cache_size div HASH_BYTES < 4" using is_prime_small by blast
  then have "2 * HASH_BYTES \<le> cache_size" by (simp add: HASH_BYTES_def)
  then have "sub64 cache_size (2 * HASH_BYTES) < cache_size"
    by (rule sub64_less) (simp_all add: HASH_BYTES_def)
  then show "(sub64 cache_size (2 * HASH_BYTES), cache_size) \<in> measure (\<lambda>cache_size. cache_size)"
    by simp
qed

declare cache_size_loop.simps [simp del]

definition get_cache_size :: "nat \<Rightarrow> nat" where
  "get_cache_size block_number =
     cache_size_loop
       (sub64 (add64 CACHE_BYTES_INIT (mul64 CACHE_BYTES_GROWTH (block_number div EPOCH_LENGTH)))
          HASH_BYTES)"

function full_size_loop :: "nat \<Rightarrow> nat" where
  "full_size_loop full_size =
     (if \<not> is_prime (full_size div MIX_BYTES)
      then full_size_loop (sub64 full_size (2 * MIX_BYTES)) else full_size)"
  by pat_completeness auto
termination
proof (relation "measure (\<lambda>full_size. full_size)")
  show "wf (measure (\<lambda>full_size. full_size))" by simp
next
  fix full_size :: nat
  assume "\<not> is_prime (full_size div MIX_BYTES)"
  then have "\<not> full_size div MIX_BYTES < 4" using is_prime_small by blast
  then have "2 * MIX_BYTES \<le> full_size" by (simp add: MIX_BYTES_def)
  then have "sub64 full_size (2 * MIX_BYTES) < full_size"
    by (rule sub64_less) (simp_all add: MIX_BYTES_def)
  then show "(sub64 full_size (2 * MIX_BYTES), full_size) \<in> measure (\<lambda>full_size. full_size)"
    by simp
qed

declare full_size_loop.simps [simp del]

definition get_full_size :: "nat \<Rightarrow> nat" where
  "get_full_size block_number =
     full_size_loop
       (sub64 (add64 DATASET_BYTES_INIT (mul64 DATASET_BYTES_GROWTH (block_number div EPOCH_LENGTH)))
          MIX_BYTES)"

subsection \<open>Hash wrappers: \<^verbatim>\<open>sha3_base\<close>, \<^verbatim>\<open>hash_words\<close>, \<^verbatim>\<open>sha3_256\<close>, \<^verbatim>\<open>sha3_512\<close>\<close>

text \<open>\<^verbatim>\<open>sha3_base<HashSize, HashFunction>\<close> holds \<^verbatim>\<open>uint8_t data[hash_size]\<close>, zero-initialised
  by the constructor and then filled by \<^verbatim>\<open>HashFunction(data, hash_size, input, input_size)\<close>.
  The array has exactly \<open>hash_size\<close> bytes whatever the primitive delivers.\<close>

definition sha3_base :: "nat \<Rightarrow> (u8 list \<Rightarrow> u8 list) \<Rightarrow> u8 list \<Rightarrow> u8 list" where
  "sha3_base hash_size HashFunction input =
     take hash_size (HashFunction input @ replicate hash_size 0)"

text \<open>\<^verbatim>\<open>deserialize\<close>: \<^verbatim>\<open>out[j] = decode_int(&data[i], &data[hash_size - 1])\<close> for
  \<open>i = 0, 4, 8, \<dots>\<close> below \<open>hash_size\<close>.\<close>

definition deserialize :: "nat \<Rightarrow> u8 list \<Rightarrow> u32 list" where
  "deserialize hash_size data =
     map (\<lambda>j. decode_int (drop (j * WORD_BYTES) data)) [0..<hash_size div 4]"

definition serialize :: "u32 list \<Rightarrow> u8 list" where
  "serialize h = concat (map (\<lambda>i. zpad (encode_int i) 4) h)"

text \<open>\<^verbatim>\<open>hash_words<HashType>(std::string const &)\<close> and
  \<^verbatim>\<open>hash_words<HashType>(deserialized_hash_t const &)\<close>.\<close>

definition hash_words_string :: "nat \<Rightarrow> (u8 list \<Rightarrow> u8 list) \<Rightarrow> u8 list \<Rightarrow> u32 list" where
  "hash_words_string hash_size HashFunction data =
     deserialize hash_size (sha3_base hash_size HashFunction data)"

definition hash_words :: "nat \<Rightarrow> (u8 list \<Rightarrow> u8 list) \<Rightarrow> u32 list \<Rightarrow> u32 list" where
  "hash_words hash_size HashFunction deserialized =
     hash_words_string hash_size HashFunction (serialize deserialized)"

text \<open>The templates \<^verbatim>\<open>sha3_512<T>\<close> and \<^verbatim>\<open>sha3_256<T>\<close>, at \<^verbatim>\<open>T = std::string\<close> and at
  \<^verbatim>\<open>T = std::vector<int32_t>\<close>.\<close>

definition sha3_512_string :: "(u8 list \<Rightarrow> u8 list) \<Rightarrow> u8 list \<Rightarrow> u32 list" where
  "sha3_512_string H512 data = hash_words_string 64 H512 data"

definition sha3_512 :: "(u8 list \<Rightarrow> u8 list) \<Rightarrow> u32 list \<Rightarrow> u32 list" where
  "sha3_512 H512 data = hash_words 64 H512 data"

definition sha3_256_string :: "(u8 list \<Rightarrow> u8 list) \<Rightarrow> u8 list \<Rightarrow> u32 list" where
  "sha3_256_string H256 data = hash_words_string 32 H256 data"

definition sha3_256 :: "(u8 list \<Rightarrow> u8 list) \<Rightarrow> u32 list \<Rightarrow> u32 list" where
  "sha3_256 H256 data = hash_words 32 H256 data"

subsection \<open>\<^verbatim>\<open>get_seedhash\<close>\<close>

text \<open>\<^verbatim>\<open>epoch0_seedhash\<close> is a \<^verbatim>\<open>char[33]\<close>: 32 zero bytes and the terminator of the string
  literal. \<^verbatim>\<open>std::string s(epoch0_seedhash)\<close> is the constructor from a C string, which
  copies the bytes before the first zero byte.\<close>

definition epoch0_seedhash :: "u8 list" where
  "epoch0_seedhash = replicate 32 0 @ [0]"

definition string_of_c_str :: "u8 list \<Rightarrow> u8 list" where
  "string_of_c_str p = takeWhile (\<lambda>c. c \<noteq> 0) p"

text \<open>\<^verbatim>\<open>for (size_t i = 0; i < (block_number / EPOCH_LENGTH); i++)
    s = sha3_256_t::serialize(sha3_256(s));\<close>\<close>

primrec seedhash_loop :: "(u8 list \<Rightarrow> u8 list) \<Rightarrow> nat \<Rightarrow> u8 list \<Rightarrow> u8 list" where
  "seedhash_loop H256 0 s = s"
| "seedhash_loop H256 (Suc k) s = seedhash_loop H256 k (serialize (sha3_256_string H256 s))"

definition get_seedhash :: "(u8 list \<Rightarrow> u8 list) \<Rightarrow> nat \<Rightarrow> u8 list" where
  "get_seedhash H256 block_number =
     seedhash_loop H256 (block_number div EPOCH_LENGTH) (string_of_c_str epoch0_seedhash)"

subsection \<open>The cache: \<^verbatim>\<open>cache_t::impl_t\<close>\<close>

datatype progress_callback_phase =
  cache_seeding | cache_generation | cache_saving | cache_loading
  | dag_generation | dag_saving | dag_loading

text \<open>\<^verbatim>\<open>progress_callback_type\<close>: \<open>callback step max phase\<close> is \<open>False\<close> to cancel. Within one
  operation no two calls pass the same \<open>step\<close> and \<open>phase\<close>, so a function of the arguments
  stands for any callback, also one with a state of its own.\<close>

type_synonym progress_callback_type = "nat \<Rightarrow> nat \<Rightarrow> progress_callback_phase \<Rightarrow> bool"

type_synonym data_type = "u32 list list"

text \<open>The first loop of \<^verbatim>\<open>mkcache\<close>, from \<open>i\<close> on:
  \<^verbatim>\<open>data.push_back(sha3_512(data.back()))\<close>, then the callback.\<close>

function mkcache_seed_loop ::
  "(u8 list \<Rightarrow> u8 list) \<Rightarrow> progress_callback_type \<Rightarrow> nat \<Rightarrow> nat \<Rightarrow> data_type \<Rightarrow> error + data_type"
where
  "mkcache_seed_loop H512 callback n i data =
     (if i < n then
        (let data' = data @ [sha3_512 H512 (last data)] in
         if i mod CALLBACK_FREQUENCY = 0 \<and> \<not> callback i n cache_seeding
         then Inl (hash_exception ''Cache creation cancelled.'')
         else mkcache_seed_loop H512 callback n (i + 1) data')
      else Inr data)"
  by pat_completeness auto
termination
  by (relation "measure (\<lambda>(H512, callback, n, i, data). n - i)") auto

declare mkcache_seed_loop.simps [simp del]

text \<open>The body of the inner loop of the second phase, up to the callback. \<open>u\<close> is a
  reference to \<^verbatim>\<open>data[(j-1+n)%n]\<close>: the XOR loop overwrites that item in place, reading
  \<^verbatim>\<open>data[v]\<close> word by word (when \<open>v\<close> is that same item every word is XORed with itself,
  which the expression below gives as well). The hash goes to \<^verbatim>\<open>data[i]\<close>, \<open>i\<close> the round.
  \<^verbatim>\<open>data[j][0] % n\<close> converts the \<^verbatim>\<open>int32_t\<close> to \<^verbatim>\<open>size_t\<close>, extending its sign.
  The indices \<open>j\<close>, \<open>v\<close> and \<open>(j-1+n)%n\<close> are below \<open>n\<close>; the step is undefined when the
  vector has fewer than \<open>n\<close> items, when \<^verbatim>\<open>data[j]\<close> is empty, when \<^verbatim>\<open>data[v]\<close> is shorter than
  \<open>u\<close>, or when the round \<open>i\<close> is past the end of the vector.\<close>

definition mkcache_step ::
  "(u8 list \<Rightarrow> u8 list) \<Rightarrow> nat \<Rightarrow> nat \<Rightarrow> nat \<Rightarrow> data_type \<Rightarrow> error + data_type"
where
  "mkcache_step H512 n i j data =
     (if n \<le> j \<or> length data < n \<or> data ! j = [] then Inl undefined_behaviour
      else
        let v = unat (scast (data ! j ! 0) :: u64) mod n;
            prev = add64 (sub64 j 1) n mod n
        in if length (data ! v) < length (data ! prev) \<or> length data \<le> i
           then Inl undefined_behaviour
           else
             let u = map (\<lambda>count. (data ! prev ! count) XOR (data ! v ! count))
                       [0..<length (data ! prev)]
             in Inr ((data[prev := u])[i := sha3_512 H512 u]))"

text \<open>The inner loop \<^verbatim>\<open>for (size_t j = 0; j < n; j++)\<close> of round \<open>i\<close>, from \<open>j\<close> on. The state is
  the cache and \<^verbatim>\<open>progress_counter\<close>, which the callback's argument increments.\<close>

function mkcache_round ::
  "(u8 list \<Rightarrow> u8 list) \<Rightarrow> progress_callback_type \<Rightarrow> nat \<Rightarrow> nat \<Rightarrow> nat \<Rightarrow> data_type \<times> nat
   \<Rightarrow> error + data_type \<times> nat"
where
  "mkcache_round H512 callback n i j st =
     (if j < n then
        (case mkcache_step H512 n i j (fst st) of
           Inl e \<Rightarrow> Inl e
         | Inr data' \<Rightarrow>
             if i mod CALLBACK_FREQUENCY = 0
             then (if \<not> callback (snd st) (n * CACHE_ROUNDS) cache_generation
                   then Inl (hash_exception ''Cache creation cancelled.'')
                   else mkcache_round H512 callback n i (j + 1) (data', snd st + 1))
             else mkcache_round H512 callback n i (j + 1) (data', snd st))
      else Inr st)"
  by pat_completeness auto
termination
  by (relation "measure (\<lambda>(H512, callback, n, i, j, st). n - j)") auto

declare mkcache_round.simps [simp del]

text \<open>The outer loop \<^verbatim>\<open>for (size_t i = 0; i < CACHE_ROUNDS; i++)\<close>, over the rounds left.\<close>

fun mkcache_rounds ::
  "(u8 list \<Rightarrow> u8 list) \<Rightarrow> progress_callback_type \<Rightarrow> nat \<Rightarrow> nat list \<Rightarrow> data_type \<times> nat
   \<Rightarrow> error + data_type \<times> nat"
where
  "mkcache_rounds H512 callback n [] st = Inr st"
| "mkcache_rounds H512 callback n (i # rounds) st =
     (case mkcache_round H512 callback n i 0 st of
        Inl e \<Rightarrow> Inl e
      | Inr st' \<Rightarrow> mkcache_rounds H512 callback n rounds st')"

text \<open>\<^verbatim>\<open>mkcache(seed, callback)\<close>; \<open>sz\<close> is the member \<^verbatim>\<open>size\<close>.\<close>

definition mkcache ::
  "(u8 list \<Rightarrow> u8 list) \<Rightarrow> nat \<Rightarrow> u8 list \<Rightarrow> progress_callback_type \<Rightarrow> error + data_type"
where
  "mkcache H512 sz seed callback =
     (let n = sz div HASH_BYTES in
      case mkcache_seed_loop H512 callback n 1 [sha3_512_string H512 seed] of
        Inl e \<Rightarrow> Inl e
      | Inr data \<Rightarrow>
          (case mkcache_rounds H512 callback n [0..<CACHE_ROUNDS] (data, 0) of
             Inl e \<Rightarrow> Inl e
           | Inr st \<Rightarrow> Inr (fst st)))"

record cache_t =
  cache_epoch :: nat
  cache_size :: nat
  cache_data :: data_type

text \<open>The constructor \<^verbatim>\<open>cache_t::impl_t(block_number, seed, callback)\<close>.\<close>

definition cache_impl_t ::
  "(u8 list \<Rightarrow> u8 list) \<Rightarrow> nat \<Rightarrow> u8 list \<Rightarrow> progress_callback_type \<Rightarrow> error + cache_t"
where
  "cache_impl_t H512 block_number seed callback =
     (case mkcache H512 (get_cache_size block_number) seed callback of
        Inl e \<Rightarrow> Inl e
      | Inr data \<Rightarrow>
          Inr \<lparr>cache_epoch = block_number div EPOCH_LENGTH,
               cache_size = get_cache_size block_number,
               cache_data = data\<rparr>)"

subsection \<open>The DAG: \<^verbatim>\<open>calc_dataset_item\<close> and \<^verbatim>\<open>generate\<close>\<close>

text \<open>The element-wise loops
  \<^verbatim>\<open>for (k = mix.begin(), l = item.begin(); k != kEnd && l != lEnd; k++, l++) *k = fnv(*k, *l);\<close>
  of \<^verbatim>\<open>calc_dataset_item\<close> and of \<^verbatim>\<open>hashimoto\<close>: they stop at the shorter of the two vectors and
  leave the rest of \<open>mix\<close> as it is.\<close>

fun fnv_zip :: "u32 list \<Rightarrow> u32 list \<Rightarrow> u32 list" where
  "fnv_zip (k # mix) (l # item) = fnv k l # fnv_zip mix item"
| "fnv_zip mix [] = mix"
| "fnv_zip [] item = []"

text \<open>One pass of \<^verbatim>\<open>for (size_type j = 0; j < DATASET_PARENTS; j++)\<close>. \<^verbatim>\<open>i ^ j\<close> is computed on
  \<^verbatim>\<open>size_t\<close> and truncated to the \<^verbatim>\<open>uint32_t\<close> parameter of \<^verbatim>\<open>fnv\<close>.\<close>

definition dataset_parent :: "data_type \<Rightarrow> nat \<Rightarrow> nat \<Rightarrow> u32 list \<Rightarrow> u32 list" where
  "dataset_parent cache i j mix =
     (let n = length cache;
          r = HASH_BYTES div WORD_BYTES;
          cache_index = unat (fnv (word_of_nat (i XOR j)) (mix ! (j mod r)))
      in fnv_zip mix (cache ! (cache_index mod n)))"

fun dataset_parents :: "data_type \<Rightarrow> nat \<Rightarrow> nat list \<Rightarrow> u32 list \<Rightarrow> u32 list" where
  "dataset_parents cache i [] mix = mix"
| "dataset_parents cache i (j # js) mix = dataset_parents cache i js (dataset_parent cache i j mix)"

text \<open>\<^verbatim>\<open>calc_dataset_item(cache, i)\<close>. \<^verbatim>\<open>i % n\<close> is undefined for an empty cache, and
  \<^verbatim>\<open>mix[0] ^= i\<close> for an empty item. \<^verbatim>\<open>mix[0] ^= i\<close> widens \<^verbatim>\<open>mix[0]\<close> to \<^verbatim>\<open>size_t\<close>, XORs and
  truncates. After \<^verbatim>\<open>mix = sha3_512(mix)\<close> the vector has 16 words, so \<^verbatim>\<open>mix[j % r]\<close> is in
  range.\<close>

definition calc_dataset_item ::
  "(u8 list \<Rightarrow> u8 list) \<Rightarrow> data_type \<Rightarrow> nat \<Rightarrow> error + u32 list"
where
  "calc_dataset_item H512 cache i =
     (let n = length cache in
      if n = 0 then Inl undefined_behaviour
      else
        let mix = cache ! (i mod n) in
        if mix = [] then Inl undefined_behaviour
        else
          let mix = mix[0 := ucast ((scast (mix ! 0) :: u64) XOR word_of_nat i)];
              mix = sha3_512 H512 mix;
              mix = dataset_parents cache i [0..<DATASET_PARENTS] mix
          in Inr (sha3_512 H512 mix))"

text \<open>\<^verbatim>\<open>dag::impl_t::generate\<close>, the loop from \<open>i\<close> on: the item is appended before the
  callback is asked.\<close>

function generate_loop ::
  "(u8 list \<Rightarrow> u8 list) \<Rightarrow> data_type \<Rightarrow> progress_callback_type \<Rightarrow> nat \<Rightarrow> nat \<Rightarrow> data_type
   \<Rightarrow> error + data_type"
where
  "generate_loop H512 cache callback n i data =
     (if i < n then
        (case calc_dataset_item H512 cache i of
           Inl e \<Rightarrow> Inl e
         | Inr item \<Rightarrow>
             if i mod CALLBACK_FREQUENCY = 0 \<and> \<not> callback i n dag_generation
             then Inl (hash_exception ''DAG creation cancelled.'')
             else generate_loop H512 cache callback n (i + 1) (data @ [item]))
      else Inr data)"
  by pat_completeness auto
termination
  by (relation "measure (\<lambda>(H512, cache, callback, n, i, data). n - i)") auto

declare generate_loop.simps [simp del]

text \<open>\<^verbatim>\<open>generate(callback)\<close>; \<open>sz\<close> is the member \<^verbatim>\<open>size\<close> and \<open>cache\<close> is \<^verbatim>\<open>cache.data()\<close>.\<close>

definition generate ::
  "(u8 list \<Rightarrow> u8 list) \<Rightarrow> data_type \<Rightarrow> nat \<Rightarrow> progress_callback_type \<Rightarrow> error + data_type"
where
  "generate H512 cache sz callback = generate_loop H512 cache callback (sz div HASH_BYTES) 0 []"

record dag_impl_t =
  impl_epoch :: nat
  impl_size :: nat
  impl_cache :: cache_t
  impl_data :: data_type

text \<open>The constructor \<^verbatim>\<open>dag::impl_t(block_number, callback)\<close>: the members in their order of
  initialisation, then \<^verbatim>\<open>generate(callback)\<close>. An exception leaves no object.\<close>

definition dag_impl_t ::
  "(u8 list \<Rightarrow> u8 list) \<Rightarrow> (u8 list \<Rightarrow> u8 list) \<Rightarrow> nat \<Rightarrow> progress_callback_type
   \<Rightarrow> error + dag_impl_t"
where
  "dag_impl_t H256 H512 block_number callback =
     (case cache_impl_t H512 block_number (get_seedhash H256 block_number) callback of
        Inl e \<Rightarrow> Inl e
      | Inr cache \<Rightarrow>
          (case generate H512 (cache_data cache) (get_full_size block_number) callback of
             Inl e \<Rightarrow> Inl e
           | Inr data \<Rightarrow>
               Inr \<lparr>impl_epoch = block_number div EPOCH_LENGTH,
                    impl_size = get_full_size block_number,
                    impl_cache = cache,
                    impl_data = data\<rparr>))"

subsection \<open>\<^verbatim>\<open>hashimoto\<close>, \<^verbatim>\<open>hashimoto_light\<close>, \<^verbatim>\<open>hashimoto_full\<close>\<close>

text \<open>The bytes of an integer object in memory, lowest address first.\<close>

definition object_bytes :: "nat \<Rightarrow> 'a::len word \<Rightarrow> u8 list" where
  "object_bytes sizeof x = map (\<lambda>k. ucast (drop_bit (8 * k) x)) [0..<sizeof]"

record result_t =
  result_value :: "u8 list"
  result_mixhash :: "u8 list"

text \<open>\<^verbatim>\<open>memcpy(&out.value.b[0], &v[0], std::min(sizeof(out.value.b), v.size()))\<close> into the
  zero-initialised \<^verbatim>\<open>h256_t\<close>: \<^verbatim>\<open>sizeof(out.value.b)\<close> is 32 and \<^verbatim>\<open>v.size()\<close> counts the words
  of \<open>v\<close>, so that many bytes of the words' memory are copied.\<close>

definition memcpy_h256 :: "u32 list \<Rightarrow> u8 list" where
  "memcpy_h256 v =
     (let count = min 32 (length v)
      in take count (concat (map (object_bytes 4) v)) @ drop count (replicate 32 0))"

text \<open>\<^verbatim>\<open>header_seed\<close>: a copy of \<open>header\<close>, then eight more \<^verbatim>\<open>int32_t\<close> elements, element \<open>i\<close>
  holding the byte \<^verbatim>\<open>reinterpret_cast<uint8_t const *>(&nonce)[7 - i]\<close>.\<close>

definition header_seed :: "u32 list \<Rightarrow> u64 \<Rightarrow> u32 list" where
  "header_seed header nonce =
     header @ map (\<lambda>i. ucast (object_bytes 8 nonce ! (7 - i))) [0..<8]"

type_synonym lookup_t = "nat \<Rightarrow> error + u32 list"

text \<open>\<^verbatim>\<open>newdata\<close>: the items \<^verbatim>\<open>lookup(p + j)\<close> for the indices given, one after the other.\<close>

fun lookup_all :: "lookup_t \<Rightarrow> nat list \<Rightarrow> error + u32 list" where
  "lookup_all lookup [] = Inr []"
| "lookup_all lookup (x # xs) =
     (case lookup x of
        Inl e \<Rightarrow> Inl e
      | Inr h \<Rightarrow> (case lookup_all lookup xs of Inl e \<Rightarrow> Inl e | Inr newdata \<Rightarrow> Inr (h @ newdata)))"

text \<open>\<^verbatim>\<open>fnv(i ^ s[0], mix[i % w]) % (n / mixhashes) * mixhashes\<close>. \<^verbatim>\<open>i ^ s[0]\<close> widens \<^verbatim>\<open>s[0]\<close> to
  \<^verbatim>\<open>size_t\<close> and \<^verbatim>\<open>fnv\<close> truncates the result. The caller has checked \<open>n div mixhashes \<noteq> 0\<close>.\<close>

definition probe_index :: "nat \<Rightarrow> u32 list \<Rightarrow> nat \<Rightarrow> u32 list \<Rightarrow> nat" where
  "probe_index n s i mix =
     (let w = MIX_BYTES div WORD_BYTES;
          mixhashes = MIX_BYTES div HASH_BYTES
      in unat (fnv (ucast ((word_of_nat i :: u64) XOR scast (s ! 0))) (mix ! (i mod w)))
           mod (n div mixhashes) * mixhashes)"

text \<open>The body of \<^verbatim>\<open>for (size_t i = 0; i < ACCESSES; i++)\<close>. A remainder by
  \<open>n / mixhashes = 0\<close> is undefined.\<close>

definition access_step :: "lookup_t \<Rightarrow> nat \<Rightarrow> u32 list \<Rightarrow> nat \<Rightarrow> u32 list \<Rightarrow> error + u32 list" where
  "access_step lookup n s i mix =
     (let mixhashes = MIX_BYTES div HASH_BYTES in
      if n div mixhashes = 0 then Inl undefined_behaviour
      else
        let p = probe_index n s i mix in
        case lookup_all lookup (map (\<lambda>j. p + j) [0..<MIX_BYTES div HASH_BYTES]) of
          Inl e \<Rightarrow> Inl e
        | Inr newdata \<Rightarrow> Inr (fnv_zip mix newdata))"

fun access_loop :: "lookup_t \<Rightarrow> nat \<Rightarrow> u32 list \<Rightarrow> nat list \<Rightarrow> u32 list \<Rightarrow> error + u32 list" where
  "access_loop lookup n s [] mix = Inr mix"
| "access_loop lookup n s (i # accesses) mix =
     (case access_step lookup n s i mix of
        Inl e \<Rightarrow> Inl e
      | Inr mix' \<Rightarrow> access_loop lookup n s accesses mix')"

text \<open>\<^verbatim>\<open>for (size_t i = 0; i < mix.size(); i += 4)
    cmix.push_back(fnv(fnv(fnv(mix[i], mix[i+1]), mix[i+2]), mix[i+3]));\<close>
  \<open>mix\<close> has 32 words here (\<open>length_access_loop\<close>), so every index is in range.\<close>

definition compress_mix :: "u32 list \<Rightarrow> u32 list" where
  "compress_mix mix =
     map (\<lambda>k. fnv (fnv (fnv (mix ! (4 * k)) (mix ! (4 * k + 1))) (mix ! (4 * k + 2)))
                 (mix ! (4 * k + 3)))
       [0..<(length mix + 3) div 4]"

definition hashimoto ::
  "(u8 list \<Rightarrow> u8 list) \<Rightarrow> (u8 list \<Rightarrow> u8 list) \<Rightarrow> u32 list \<Rightarrow> u64 \<Rightarrow> nat \<Rightarrow> lookup_t
   \<Rightarrow> error + result_t"
where
  "hashimoto H256 H512 header nonce full_size lookup =
     (let n = full_size div HASH_BYTES;
          s = sha3_512 H512 (header_seed header nonce);
          mix = concat (replicate (MIX_BYTES div HASH_BYTES) s)
      in case access_loop lookup n s [0..<ACCESSES] mix of
           Inl e \<Rightarrow> Inl e
         | Inr mix \<Rightarrow>
             (let cmix = compress_mix mix;
                  v = sha3_256 H256 s
              in Inr \<lparr>result_value = memcpy_h256 v, result_mixhash = memcpy_h256 cmix\<rparr>))"

text \<open>\<^verbatim>\<open>hashimoto_light\<close> looks an item up by computing it from the cache;
  \<^verbatim>\<open>hashimoto_full\<close> reads \<^verbatim>\<open>dataset.data()[x]\<close>, which is undefined past the end of the vector.\<close>

definition hashimoto_light ::
  "(u8 list \<Rightarrow> u8 list) \<Rightarrow> (u8 list \<Rightarrow> u8 list) \<Rightarrow> nat \<Rightarrow> data_type \<Rightarrow> u32 list \<Rightarrow> u64
   \<Rightarrow> error + result_t"
where
  "hashimoto_light H256 H512 full_size c header nonce =
     hashimoto H256 H512 header nonce full_size (\<lambda>x. calc_dataset_item H512 c x)"

definition hashimoto_full ::
  "(u8 list \<Rightarrow> u8 list) \<Rightarrow> (u8 list \<Rightarrow> u8 list) \<Rightarrow> nat \<Rightarrow> data_type \<Rightarrow> u32 list \<Rightarrow> u64
   \<Rightarrow> error + result_t"
where
  "hashimoto_full H256 H512 full_size dataset header nonce =
     hashimoto H256 H512 header nonce full_size
       (\<lambda>x. if x < length dataset then Inr (dataset ! x) else Inl undefined_behaviour)"

subsection \<open>The registry: \<^verbatim>\<open>dag_cache\<close> and \<^verbatim>\<open>get_dag\<close>\<close>

text \<open>\<^verbatim>\<open>dag_cache\<close> is a \<^verbatim>\<open>std::map\<close> from the epoch to a \<^verbatim>\<open>shared_ptr<impl_t>\<close>. A handle is a
  value of the type \<open>'h\<close>: two handles are the same when the pointers are. \<open>build\<close> stands
  for \<^verbatim>\<open>new dag::impl_t(block_number, callback)\<close>, which returns a new handle or throws.\<close>

type_synonym 'h dag_cache_map = "nat \<rightharpoonup> 'h"

text \<open>\<^verbatim>\<open>std::map::insert\<close>: it stores the pair unless the key has a value, and says whether it
  did.\<close>

definition map_insert :: "'h dag_cache_map \<Rightarrow> nat \<Rightarrow> 'h \<Rightarrow> 'h dag_cache_map \<times> bool" where
  "map_insert m k v = (case m k of None \<Rightarrow> (m(k \<mapsto> v), True) | Some _ \<Rightarrow> (m, False))"

text \<open>The first block under \<^verbatim>\<open>dag_cache_mutex\<close>: \<^verbatim>\<open>dag_cache.find(epoch_number)\<close>.\<close>

definition get_dag_find :: "'h dag_cache_map \<Rightarrow> nat \<Rightarrow> 'h option" where
  "get_dag_find dag_cache block_number = dag_cache (block_number div EPOCH_LENGTH)"

text \<open>The second block under the mutex, from \<^verbatim>\<open>dag_cache.insert\<close> to the end of the
  function. After an insertion \<^verbatim>\<open>insert_pair.first->second\<close> is the handle just stored.\<close>

definition get_dag_insert ::
  "'h dag_cache_map \<Rightarrow> nat \<Rightarrow> 'h \<Rightarrow> 'h dag_cache_map \<times> (error + 'h)"
where
  "get_dag_insert dag_cache block_number impl =
     (let epoch_number = block_number div EPOCH_LENGTH;
          (dag_cache', inserted) = map_insert dag_cache epoch_number impl
      in if inserted then (dag_cache', Inr impl)
         else (case dag_cache' epoch_number of
                 Some h \<Rightarrow> (dag_cache', Inr h)
               | None \<Rightarrow> (dag_cache', Inl (hash_exception ''Could not get DAG''))))"

text \<open>\<^verbatim>\<open>get_dag(block_number, callback)\<close> run by one thread without interference.\<close>

definition get_dag ::
  "(nat \<Rightarrow> progress_callback_type \<Rightarrow> error + 'h) \<Rightarrow> 'h dag_cache_map \<Rightarrow> nat
   \<Rightarrow> progress_callback_type \<Rightarrow> 'h dag_cache_map \<times> (error + 'h)"
where
  "get_dag build dag_cache block_number callback =
     (case get_dag_find dag_cache block_number of
        Some h \<Rightarrow> (dag_cache, Inr h)
      | None \<Rightarrow>
          (case build block_number callback of
             Inl e \<Rightarrow> (dag_cache, Inl e)
           | Inr impl \<Rightarrow> get_dag_insert dag_cache block_number impl))"

text \<open>Threads that run \<^verbatim>\<open>get_dag\<close> at the same time. The mutex makes each of the two
  blocks one step; the construction between them runs outside the mutex and is a step of its
  own, which ends with a handle or with an exception. A thread is before its first block
  with a block number, constructing, constructed with its new handle, or done.\<close>

datatype 'h thread =
  Idle
  | Called nat
  | Building nat
  | Built nat 'h
  | Returned nat 'h
  | Thrown nat error

type_synonym 'h system = "'h dag_cache_map \<times> (nat \<Rightarrow> 'h thread)"

inductive step :: "'h system \<Rightarrow> 'h system \<Rightarrow> bool" where
  call: "ts t = Idle \<Longrightarrow> step (dag_cache, ts) (dag_cache, ts(t := Called block_number))"
| found:
    "ts t = Called block_number \<Longrightarrow> get_dag_find dag_cache block_number = Some h \<Longrightarrow>
     step (dag_cache, ts) (dag_cache, ts(t := Returned block_number h))"
| missing:
    "ts t = Called block_number \<Longrightarrow> get_dag_find dag_cache block_number = None \<Longrightarrow>
     step (dag_cache, ts) (dag_cache, ts(t := Building block_number))"
| constructed:
    "ts t = Building block_number \<Longrightarrow>
     step (dag_cache, ts) (dag_cache, ts(t := Built block_number impl))"
| cancelled:
    "ts t = Building block_number \<Longrightarrow>
     step (dag_cache, ts) (dag_cache, ts(t := Thrown block_number e))"
| inserted:
    "ts t = Built block_number impl \<Longrightarrow>
     get_dag_insert dag_cache block_number impl = (dag_cache', Inr h) \<Longrightarrow>
     step (dag_cache, ts) (dag_cache', ts(t := Returned block_number h))"
| insert_failed:
    "ts t = Built block_number impl \<Longrightarrow>
     get_dag_insert dag_cache block_number impl = (dag_cache', Inl e) \<Longrightarrow>
     step (dag_cache, ts) (dag_cache', ts(t := Thrown block_number e))"

inductive reachable :: "'h system \<Rightarrow> bool" where
  init: "reachable (Map.empty, \<lambda>t. Idle)"
| next_step: "reachable c \<Longrightarrow> step c c' \<Longrightarrow> reachable c'"

subsection \<open>The DAG file: \<^verbatim>\<open>save\<close>, \<^verbatim>\<open>load\<close> and \<^verbatim>\<open>get_dag(file_path, callback)\<close>\<close>

text \<open>A file is the list of its bytes; both functions are modelled on a stream that opened.
  \<^verbatim>\<open>write(&x, sizeof(x))\<close> appends the bytes of the object \<open>x\<close>, and \<^verbatim>\<open>read(&x, sizeof(x))\<close> reads
  them back.\<close>

definition bytes_object :: "u8 list \<Rightarrow> 'a::len word" where
  "bytes_object bs = foldr (\<lambda>b x. ucast b OR push_bit 8 x) bs 0"

text \<open>The two loops of \<^verbatim>\<open>save\<close> over the items of a vector: the words of an item are written,
  then \<^verbatim>\<open>count\<close> is incremented and the callback asked. The result is what the stream holds
  and the outcome: the count reached, or the exception.\<close>

fun save_items ::
  "progress_callback_type \<Rightarrow> nat \<Rightarrow> data_type \<Rightarrow> nat \<Rightarrow> u8 list \<Rightarrow> u8 list \<times> (error + nat)"
where
  "save_items callback max_count [] count fs = (fs, Inr count)"
| "save_items callback max_count (i # items) count fs =
     (let fs' = fs @ concat (map (object_bytes 4) i);
          count' = count + 1
      in if count' mod CALLBACK_FREQUENCY = 0 \<and> \<not> callback count' max_count dag_saving
         then (fs', Inl (hash_exception ''DAG save cancelled.''))
         else save_items callback max_count items count' fs')"

text \<open>The header \<^verbatim>\<open>save\<close> writes: the eleven characters of the magic (\<^verbatim>\<open>fs << DAG_MAGIC_BYTES\<close>
  writes no terminator), one zero byte, three 32-bit and five 64-bit integers, one zero
  byte.\<close>

definition save_header :: "dag_impl_t \<Rightarrow> u8 list" where
  "save_header this =
     (let cache_begin = DAG_FILE_HEADER_SIZE;
          cache_end = add64 cache_begin (cache_size (impl_cache this));
          dag_begin = cache_end;
          dag_end = add64 dag_begin (impl_size this)
      in DAG_MAGIC_BYTES @ [0]
         @ object_bytes 4 MAJOR_VERSION @ object_bytes 4 REVISION @ object_bytes 4 MINOR_VERSION
         @ object_bytes 8 (word_of_nat (impl_epoch this) :: u64)
         @ object_bytes 8 (word_of_nat cache_begin :: u64)
         @ object_bytes 8 (word_of_nat cache_end :: u64)
         @ object_bytes 8 (word_of_nat dag_begin :: u64)
         @ object_bytes 8 (word_of_nat dag_end :: u64)
         @ [0])"

definition save :: "dag_impl_t \<Rightarrow> progress_callback_type \<Rightarrow> u8 list \<times> (error + unit)" where
  "save this callback =
     (let max_count = add64 (cache_size (impl_cache this)) (length (impl_data this))
      in case save_items callback max_count (cache_data (impl_cache this)) 0 (save_header this) of
           (fs, Inl e) \<Rightarrow> (fs, Inl e)
         | (fs, Inr count) \<Rightarrow>
             (case save_items callback max_count (impl_data this) count fs of
                (fs', Inl e) \<Rightarrow> (fs', Inl e)
              | (fs', Inr _) \<Rightarrow> (fs', Inr ())))"

text \<open>\<^verbatim>\<open>std::vector::resize\<close> on a vector of vectors: new items are empty.\<close>

definition resize :: "nat \<Rightarrow> data_type \<Rightarrow> data_type" where
  "resize k data = take k data @ replicate (k - length data) []"

text \<open>The loops of \<^verbatim>\<open>cache_t::impl_t::load\<close> and of \<^verbatim>\<open>dag::impl_t::load\<close>:
  \<^verbatim>\<open>for (auto i : data)\<close> copies each item, so the 64 bytes read go into the copy and the
  vector keeps the items \<^verbatim>\<open>resize\<close> gave it; nothing reads the stream after the loops. What
  remains of an iteration is the count and the callback.\<close>

function load_items ::
  "progress_callback_type \<Rightarrow> progress_callback_phase \<Rightarrow> string \<Rightarrow> nat \<Rightarrow> nat \<Rightarrow> error + unit"
where
  "load_items callback phase msg hash_count count =
     (if count < hash_count then
        (let count' = count + 1
         in if count' mod CALLBACK_FREQUENCY = 0 \<and> \<not> callback count' hash_count phase
            then Inl (hash_exception msg)
            else load_items callback phase msg hash_count count')
      else Inr ())"
  by pat_completeness auto
termination
  by (relation "measure (\<lambda>(callback, phase, msg, hash_count, count). hash_count - count)") auto

declare load_items.simps [simp del]

text \<open>\<^verbatim>\<open>cache_t::impl_t::load\<close>, on a cache whose \<^verbatim>\<open>size\<close> has been set.\<close>

definition cache_load :: "cache_t \<Rightarrow> progress_callback_type \<Rightarrow> error + cache_t" where
  "cache_load c callback =
     (let cache_hash_count = cache_size c div HASH_BYTES
      in case load_items callback cache_loading ''Cache loading cancelled.'' cache_hash_count 0 of
           Inl e \<Rightarrow> Inl e
         | Inr _ \<Rightarrow> Inr (c\<lparr>cache_data := resize cache_hash_count (cache_data c)\<rparr>))"

text \<open>\<^verbatim>\<open>dag::impl_t::load\<close>, first part: the checks of the file, up to the two sizes. The
  result is the epoch read, the cache size and the DAG size. After the check of the file
  size the 65 bytes of the header are there, so that none of the header's reads fails.
  \<^verbatim>\<open>std::string(magic)\<close> reads the twelve bytes of \<^verbatim>\<open>magic\<close>, the last one zero, as a C
  string.\<close>

definition load_header :: "u8 list \<Rightarrow> error + nat \<times> nat \<times> nat" where
  "load_header fs =
     (let filesize = length fs in
      if filesize < 1090516865 then Inl (hash_exception ''DAG is corrupt'')
      else if string_of_c_str (take 11 fs @ [0]) \<noteq> DAG_MAGIC_BYTES
      then Inl (hash_exception ''Not a DAG file'')
      else
        let major = (bytes_object (take 4 (drop 12 fs)) :: u32);
            revision = (bytes_object (take 4 (drop 16 fs)) :: u32)
        in if major \<noteq> MAJOR_VERSION \<or> revision \<noteq> REVISION
           then Inl (hash_exception ''DAG version is invalid'')
           else
             let epoch = unat (bytes_object (take 8 (drop 24 fs)) :: u64);
                 cache_begin = unat (bytes_object (take 8 (drop 32 fs)) :: u64);
                 cache_end = unat (bytes_object (take 8 (drop 40 fs)) :: u64);
                 dag_begin = unat (bytes_object (take 8 (drop 48 fs)) :: u64);
                 dag_end = unat (bytes_object (take 8 (drop 56 fs)) :: u64);
                 cache_sz = get_cache_size (add64 (mul64 epoch EPOCH_LENGTH) 1)
             in if cache_end \<le> cache_begin \<or> cache_sz \<noteq> cache_end - cache_begin
                   \<or> cache_end \<ge> filesize
                then Inl (hash_exception ''DAG cache is corrupt'')
                else
                  let sz = get_full_size (add64 (mul64 epoch EPOCH_LENGTH) 1)
                  in if dag_end \<le> dag_begin \<or> sz \<noteq> dag_end - dag_begin \<or> dag_end > filesize
                     then Inl (hash_exception ''DAG is corrupt'')
                     else Inr (epoch, cache_sz, sz))"

text \<open>\<^verbatim>\<open>dag::impl_t::load\<close> on the object \<open>this\<close>: the checks, then the cache, then the DAG.\<close>

definition load :: "dag_impl_t \<Rightarrow> u8 list \<Rightarrow> progress_callback_type \<Rightarrow> error + dag_impl_t" where
  "load this fs callback =
     (case load_header fs of
        Inl e \<Rightarrow> Inl e
      | Inr (epoch, cache_sz, sz) \<Rightarrow>
          (case cache_load ((impl_cache this)\<lparr>cache_epoch := epoch, cache_size := cache_sz\<rparr>)
                  callback of
             Inl e \<Rightarrow> Inl e
           | Inr c \<Rightarrow>
               (let dag_hash_count = sz div HASH_BYTES
                in case load_items callback dag_loading ''DAG loading cancelled.''
                          dag_hash_count 0 of
                     Inl e \<Rightarrow> Inl e
                   | Inr _ \<Rightarrow>
                       Inr \<lparr>impl_epoch = epoch,
                            impl_size = sz,
                            impl_cache = c,
                            impl_data = resize dag_hash_count (impl_data this)\<rparr>)))"

text \<open>\<^verbatim>\<open>get_dag(file_path, callback)\<close> uses neither argument and returns the null pointer it
  declared (\<^verbatim>\<open>// TODO: implement me\<close>).\<close>

definition get_dag_file :: "string \<Rightarrow> progress_callback_type \<Rightarrow> dag_impl_t option" where
  "get_dag_file file_path callback = None"

subsection \<open>Predicates and values the theorems are stated with\<close>

text \<open>What the specification calls prime, and the value it calls the largest one of the
  form \<open>start - k * (2 * unit)\<close> whose quotient by \<open>unit\<close> is prime.\<close>

definition prime_nat :: "nat \<Rightarrow> bool" where
  "prime_nat p \<longleftrightarrow> 1 < p \<and> (\<forall>m. m dvd p \<longrightarrow> m = 1 \<or> m = p)"

definition largest_prime_size :: "nat \<Rightarrow> nat \<Rightarrow> nat \<Rightarrow> bool" where
  "largest_prime_size start unit v \<longleftrightarrow>
     (\<exists>k. v + k * (2 * unit) = start) \<and> prime_nat (v div unit) \<and>
     (\<forall>k w. w + k * (2 * unit) = start \<and> prime_nat (w div unit) \<longrightarrow> w \<le> v)"

text \<open>The loop over sizes, for any unit \<open>u\<close>: what both size loops compute.\<close>

definition size_loop_post :: "nat \<Rightarrow> nat \<Rightarrow> nat \<Rightarrow> bool" where
  "size_loop_post u s r \<longleftrightarrow>
     r mod (2 * u) = u \<and> 3 * u \<le> r \<and> r \<le> s \<and> is_prime (r div u) \<and>
     (\<forall>w. r < w \<and> w \<le> s \<and> w mod (2 * u) = u \<longrightarrow> \<not> is_prime (w div u))"

text \<open>The shape of a cache of \<open>n\<close> items: every item has 16 words.\<close>

definition cache_shape :: "nat \<Rightarrow> data_type \<Rightarrow> bool" where
  "cache_shape n data \<longleftrightarrow> length data = n \<and> (\<forall>x \<in> set data. length x = 16)"

text \<open>The calls the two phases of \<open>mkcache\<close> make to the callback, and the calls \<open>generate\<close>
  makes: whether one of them is answered with \<open>False\<close>.\<close>

definition seeding_stop :: "progress_callback_type \<Rightarrow> nat \<Rightarrow> bool" where
  "seeding_stop callback n \<longleftrightarrow> (\<exists>i. 1 \<le> i \<and> i < n \<and> \<not> callback i n cache_seeding)"

definition generation_stop :: "progress_callback_type \<Rightarrow> nat \<Rightarrow> bool" where
  "generation_stop callback n \<longleftrightarrow>
     (\<exists>k. k < n * CACHE_ROUNDS \<and> \<not> callback k (n * CACHE_ROUNDS) cache_generation)"

definition generate_stop :: "progress_callback_type \<Rightarrow> nat \<Rightarrow> bool" where
  "generate_stop callback n \<longleftrightarrow> (\<exists>i. i < n \<and> \<not> callback i n dag_generation)"

text \<open>The calls the construction of a DAG handle makes to the callback, the calls \<open>save\<close>
  makes and the calls \<open>load\<close> makes after its checks: whether one of them is answered with
  \<open>False\<close>.\<close>

definition build_stop :: "progress_callback_type \<Rightarrow> nat \<Rightarrow> bool" where
  "build_stop callback block_number \<longleftrightarrow>
     seeding_stop callback (get_cache_size block_number div HASH_BYTES) \<or>
     generation_stop callback (get_cache_size block_number div HASH_BYTES) \<or>
     generate_stop callback (get_full_size block_number div HASH_BYTES)"



text \<open>The errors that report a cancellation. The code has one exception class,
  \<^verbatim>\<open>hash_exception\<close>; what tells a cancellation from another error is the message.\<close>

definition cancelled :: "error \<Rightarrow> bool" where
  "cancelled e \<longleftrightarrow>
     e = hash_exception ''Cache creation cancelled.'' \<or>
     e = hash_exception ''DAG creation cancelled.'' \<or>
     e = hash_exception ''DAG save cancelled.'' \<or>
     e = hash_exception ''Cache loading cancelled.'' \<or>
     e = hash_exception ''DAG loading cancelled.''"




definition small_cache :: data_type where
  "small_cache = [replicate 16 1, replicate 16 2, replicate 16 3, replicate 16 4]"

text \<open>What holds of every state the threads can reach: a handle a thread has returned is
  the handle the registry holds for the epoch.\<close>

definition returned_is_registered :: "'h system \<Rightarrow> bool" where
  "returned_is_registered c \<longleftrightarrow>
     (\<forall>t block_number h. snd c t = Returned block_number h \<longrightarrow>
        fst c (block_number div EPOCH_LENGTH) = Some h)"

text \<open>Two threads that race for epoch 0: both miss, both construct, thread 1 inserts its
  handle 20 first, and thread 0, which has constructed handle 10, gets 20.\<close>

definition race_threads :: "nat \<Rightarrow> nat thread" where
  "race_threads = (\<lambda>t. Idle)(0 := Returned 0 20, 1 := Returned 5 20)"

definition race_cache :: "nat dag_cache_map" where
  "race_cache = [0 \<mapsto> 20]"

text \<open>The same state with a third thread that has called for epoch 1 and not yet looked.\<close>

definition race_waiting :: "nat \<Rightarrow> nat thread" where
  "race_waiting = race_threads(2 := Called 30000)"

text \<open>A handle of epoch 0 of the right sizes, all of whose words are zero.\<close>

definition zero_handle :: dag_impl_t where
  "zero_handle =
     \<lparr>impl_epoch = 0, impl_size = 1073739904,
      impl_cache = \<lparr>cache_epoch = 0, cache_size = 16776896,
                    cache_data = replicate 262139 (replicate 16 0)\<rparr>,
      impl_data = replicate 16777186 (replicate 16 0)\<rparr>"

section \<open>Sizes (claim C5)\<close>

lemma is_prime_loop_iff:
  "0 < i \<Longrightarrow> is_prime_loop x i \<longleftrightarrow> (\<forall>d. i \<le> d \<and> d * d \<le> x \<longrightarrow> x mod d \<noteq> 0)"
proof (induction x i rule: is_prime_loop.induct)
  case (1 x i)
  show ?case
  proof (cases "i * i \<le> x")
    case False
    have "\<And>d. i \<le> d \<Longrightarrow> \<not> d * d \<le> x"
    proof
      fix d assume "i \<le> d" "d * d \<le> x"
      then have "i * i \<le> d * d" by (simp add: mult_le_mono)
      with \<open>d * d \<le> x\<close> False show False by simp
    qed
    with False show ?thesis by (subst is_prime_loop.simps) auto
  next
    case True
    show ?thesis
    proof (cases "x mod i = 0")
      case z: True
      with True show ?thesis by (subst is_prime_loop.simps) auto
    next
      case nz: False
      have ih: "is_prime_loop x (i + 1) \<longleftrightarrow> (\<forall>d. i + 1 \<le> d \<and> d * d \<le> x \<longrightarrow> x mod d \<noteq> 0)"
        using "1.IH" [OF True nz] by simp
      have "(\<forall>d. i \<le> d \<and> d * d \<le> x \<longrightarrow> x mod d \<noteq> 0) \<longleftrightarrow>
            (\<forall>d. i + 1 \<le> d \<and> d * d \<le> x \<longrightarrow> x mod d \<noteq> 0)"
        using nz by (metis Suc_eq_plus1 Suc_leI le_neq_implies_less Suc_leD)
      with ih True nz show ?thesis by (subst is_prime_loop.simps) simp
    qed
  qed
qed

lemma is_prime_iff_prime_nat:
  assumes "2 \<le> x"
  shows "is_prime x \<longleftrightarrow> prime_nat x"
proof
  assume p: "is_prime x"
  then have nd: "\<And>d. 2 \<le> d \<Longrightarrow> d * d \<le> x \<Longrightarrow> x mod d \<noteq> 0"
    by (simp add: is_prime_def is_prime_loop_iff)
  have "m = 1 \<or> m = x" if "m dvd x" for m
  proof (rule ccontr)
    assume c: "\<not> (m = 1 \<or> m = x)"
    from that obtain k where k: "x = m * k" by (auto simp: dvd_def)
    from c k assms have m2: "2 \<le> m" by (cases m) auto
    from c k assms have k2: "2 \<le> k" by (cases k) auto
    show False
    proof (cases "m \<le> k")
      case True
      then have "m * m \<le> x" using k by simp
      with nd [OF m2] k show False by simp
    next
      case False
      then have "k * k \<le> x" using k by (simp add: mult_le_mono1)
      with nd [OF k2] k show False by simp
    qed
  qed
  with assms show "prime_nat x" by (simp add: prime_nat_def)
next
  assume p: "prime_nat x"
  have "x mod d \<noteq> 0" if "2 \<le> d" "d * d \<le> x" for d
  proof
    assume "x mod d = 0"
    then have "d dvd x" by auto
    with p have "d = 1 \<or> d = x" by (simp add: prime_nat_def)
    with that have "x * x \<le> x" by auto
    with assms show False by (cases x) auto
  qed
  then show "is_prime x" by (simp add: is_prime_def is_prime_loop_iff)
qed

lemma sub64_exact: "b \<le> a \<Longrightarrow> a < 2 ^ 64 \<Longrightarrow> sub64 a b = a - b"
proof -
  assume ba: "b \<le> a" and a: "a < 2 ^ 64"
  then have "sub64 a b = (a - b + 2 ^ 64) mod 2 ^ 64" by (simp add: sub64_def)
  also have "\<dots> = a - b" using a by simp
  finally show ?thesis .
qed

lemma size_loop_step:
  assumes u: "0 < u" and s: "s mod (2 * u) = u" "3 * u \<le> s" and np: "\<not> is_prime (s div u)"
    and post: "size_loop_post u (s - 2 * u) r"
  shows "size_loop_post u s r"
proof -
  have "r \<le> s - 2 * u" using post by (simp add: size_loop_post_def)
  then have rs: "r \<le> s" by simp
  have "\<not> is_prime (w div u)" if w: "r < w" "w \<le> s" "w mod (2 * u) = u" for w
  proof (cases "w \<le> s - 2 * u")
    case True
    with post w show ?thesis by (simp add: size_loop_post_def)
  next
    case False
    have "w = s"
    proof (rule ccontr)
      assume "w \<noteq> s"
      with w have lt: "w < s" by simp
      have "(s - w) mod (2 * u) = 0"
        using s(1) w(3) lt by (metis mod_eq_dvd_iff_nat less_imp_le_nat dvd_imp_mod_0)
      then have "2 * u dvd s - w" by auto
      then have "2 * u \<le> s - w" using lt by (simp add: dvd_imp_le)
      with False lt show False by linarith
    qed
    with np show ?thesis by simp
  qed
  with post rs show ?thesis by (simp add: size_loop_post_def)
qed

lemma size_loop_next:
  assumes u: "0 < u" and s: "s mod (2 * u) = u" "3 * u \<le> s" and np: "\<not> is_prime (s div u)"
  shows "(s - 2 * u) mod (2 * u) = u \<and> 3 * u \<le> s - 2 * u"
proof -
  have odd: "s div u mod 2 = 1"
  proof -
    have "s = 2 * u * (s div (2 * u)) + u" using s(1) by (metis mult_div_mod_eq)
    then have "s = (2 * (s div (2 * u)) + 1) * u" by (simp add: algebra_simps)
    then have "s div u = 2 * (s div (2 * u)) + 1" using u by (metis nonzero_mult_div_cancel_right less_numeral_extra(3))
    then show ?thesis by simp
  qed
  define q where "q = s div u"
  have "\<not> q < 4" using np is_prime_small by (auto simp: q_def)
  moreover have "q mod 2 = 1" using odd by (simp add: q_def)
  ultimately have "5 \<le> q" by presburger
  then have "5 \<le> s div u" by (simp add: q_def)
  then have "5 * u \<le> (s div u) * u" by (rule mult_le_mono1)
  also have "\<dots> \<le> s" by simp
  finally have "5 * u \<le> s" .
  then have "(s - 2 * u) mod (2 * u) = s mod (2 * u)"
    by (simp add: le_mod_geq)
  with \<open>5 * u \<le> s\<close> show ?thesis using s by simp
qed

lemma cache_size_loop_post:
  "s mod (2 * HASH_BYTES) = HASH_BYTES \<Longrightarrow> 3 * HASH_BYTES \<le> s \<Longrightarrow> s < 2 ^ 64 \<Longrightarrow>
   size_loop_post HASH_BYTES s (cache_size_loop s)"
proof (induction s rule: cache_size_loop.induct)
  case (1 s)
  show ?case
  proof (cases "is_prime (s div HASH_BYTES)")
    case True
    then have "cache_size_loop s = s" by (subst cache_size_loop.simps) simp
    with True "1.prems" show ?thesis by (auto simp add: size_loop_post_def)
  next
    case False
    have u: "0 < HASH_BYTES" by (simp add: HASH_BYTES_def)
    have nx: "(s - 2 * HASH_BYTES) mod (2 * HASH_BYTES) = HASH_BYTES \<and> 3 * HASH_BYTES \<le> s - 2 * HASH_BYTES"
      using size_loop_next [OF u "1.prems"(1,2) False] .
    have sub: "sub64 s (2 * HASH_BYTES) = s - 2 * HASH_BYTES"
      using "1.prems" by (intro sub64_exact) simp_all
    have "size_loop_post HASH_BYTES (s - 2 * HASH_BYTES) (cache_size_loop (s - 2 * HASH_BYTES))"
      using "1.IH" [OF False] nx "1.prems"(3) by (simp add: sub)
    then have "size_loop_post HASH_BYTES s (cache_size_loop (s - 2 * HASH_BYTES))"
      using size_loop_step [OF u "1.prems"(1,2) False] by blast
    moreover have "cache_size_loop s = cache_size_loop (s - 2 * HASH_BYTES)"
      using False by (subst cache_size_loop.simps) (simp add: sub)
    ultimately show ?thesis by simp
  qed
qed

lemma full_size_loop_post:
  "s mod (2 * MIX_BYTES) = MIX_BYTES \<Longrightarrow> 3 * MIX_BYTES \<le> s \<Longrightarrow> s < 2 ^ 64 \<Longrightarrow>
   size_loop_post MIX_BYTES s (full_size_loop s)"
proof (induction s rule: full_size_loop.induct)
  case (1 s)
  show ?case
  proof (cases "is_prime (s div MIX_BYTES)")
    case True
    then have "full_size_loop s = s" by (subst full_size_loop.simps) simp
    with True "1.prems" show ?thesis by (auto simp add: size_loop_post_def)
  next
    case False
    have u: "0 < MIX_BYTES" by (simp add: MIX_BYTES_def)
    have nx: "(s - 2 * MIX_BYTES) mod (2 * MIX_BYTES) = MIX_BYTES \<and> 3 * MIX_BYTES \<le> s - 2 * MIX_BYTES"
      using size_loop_next [OF u "1.prems"(1,2) False] .
    have sub: "sub64 s (2 * MIX_BYTES) = s - 2 * MIX_BYTES"
      using "1.prems" by (intro sub64_exact) simp_all
    have "size_loop_post MIX_BYTES (s - 2 * MIX_BYTES) (full_size_loop (s - 2 * MIX_BYTES))"
      using "1.IH" [OF False] nx "1.prems"(3) by (simp add: sub)
    then have "size_loop_post MIX_BYTES s (full_size_loop (s - 2 * MIX_BYTES))"
      using size_loop_step [OF u "1.prems"(1,2) False] by blast
    moreover have "full_size_loop s = full_size_loop (s - 2 * MIX_BYTES)"
      using False by (subst full_size_loop.simps) (simp add: sub)
    ultimately show ?thesis by simp
  qed
qed

lemma size_loop_post_prime:
  assumes u: "0 < u" and post: "size_loop_post u s r"
  shows "prime_nat (r div u)"
proof -
  have "3 * u \<le> r" and p: "is_prime (r div u)" using post by (simp_all add: size_loop_post_def)
  then have "3 * u div u \<le> r div u" by (intro div_le_mono)
  then have "2 \<le> r div u" using u by simp
  with p show ?thesis by (simp add: is_prime_iff_prime_nat)
qed

lemma size_loop_post_largest:
  assumes u: "0 < u" and s: "s mod (2 * u) = u" and post: "size_loop_post u s r"
  shows "largest_prime_size s u r"
proof -
  have r: "r mod (2 * u) = u" "3 * u \<le> r" "r \<le> s"
    and skip: "\<And>w. r < w \<Longrightarrow> w \<le> s \<Longrightarrow> w mod (2 * u) = u \<Longrightarrow> \<not> is_prime (w div u)"
    using post by (simp_all add: size_loop_post_def)
  have "(s - r) mod (2 * u) = 0"
    using r(1,3) s by (metis mod_eq_dvd_iff_nat dvd_imp_mod_0)
  then have "r + ((s - r) div (2 * u)) * (2 * u) = s" using r(3) by auto
  then have form: "\<exists>k. r + k * (2 * u) = s" by blast
  have "w \<le> r" if w: "w + k * (2 * u) = s" "prime_nat (w div u)" for k w
  proof (rule ccontr)
    assume "\<not> w \<le> r"
    then have lt: "r < w" by simp
    have ws: "w \<le> s" using w(1) by simp
    have "(w + k * (2 * u)) mod (2 * u) = w mod (2 * u)" by simp
    then have "w mod (2 * u) = u" using w(1) s by simp
    then have np: "\<not> is_prime (w div u)" using skip lt ws by blast
    have "3 * u div u \<le> w div u" using lt r(2) by (intro div_le_mono) simp
    then have "2 \<le> w div u" using u by simp
    with np w(2) show False by (simp add: is_prime_iff_prime_nat)
  qed
  with form size_loop_post_prime [OF u post] show ?thesis
    by (auto simp add: largest_prime_size_def)
qed

lemma size_start:
  assumes d: "512 dvd a" "512 dvd g" and u: "u = 64 \<or> u = 128"
  shows "sub64 (add64 a (mul64 g e)) u mod (2 * u) = u \<and> 3 * u \<le> sub64 (add64 a (mul64 g e)) u
         \<and> sub64 (add64 a (mul64 g e)) u < 2 ^ 64"
proof -
  define X where "X = add64 a (mul64 g e)"
  have "(512::nat) dvd 2 ^ 64" by simp
  have "512 dvd mul64 g e" unfolding mul64_def
    using d(2) by (intro dvd_mod) simp_all
  then have "512 dvd a + mul64 g e" using d(1) by simp
  then have X512: "512 dvd X" unfolding X_def add64_def by (intro dvd_mod) simp_all
  have Xlt: "X < 2 ^ 64" by (simp add: X_def add64_def)
  have lt: "sub64 X u < 2 ^ 64" by (simp add: sub64_def)
  from X512 obtain k where k: "X = 512 * k" by (auto simp: dvd_def)
  show ?thesis
  proof (cases "k = 0")
    case True
    then have X0: "X = 0" using k by simp
    have "sub64 0 64 = 2 ^ 64 - 64" "sub64 0 128 = 2 ^ 64 - 128" by (simp_all add: sub64_def)
    then show ?thesis using u unfolding X_def [symmetric] X0 by (elim disjE) simp_all
  next
    case False
    then have "u \<le> X" using u k by auto
    then have e: "sub64 X u = X - u" using Xlt by (rule sub64_exact)
    from False obtain j where j: "k = Suc j" by (cases k) auto
    have "512 * k - 64 = 64 + 128 * (4 * j + 3)" "512 * k - 128 = 128 + 256 * (2 * j + 1)"
      by (simp_all add: j)
    then have "(512 * k - 64) mod 128 = 64" "(512 * k - 128) mod 256 = 128"
      by (simp_all only: mod_mult_self2) simp_all
    then have "(512 * k - u) mod (2 * u) = u" using u by (elim disjE) simp_all
    moreover have "3 * u \<le> 512 * k - u" using u False by auto
    ultimately show ?thesis using lt e k unfolding X_def [symmetric] by simp
  qed
qed

lemma get_cache_size_post:
  "size_loop_post HASH_BYTES
     (sub64 (add64 CACHE_BYTES_INIT (mul64 CACHE_BYTES_GROWTH (block_number div EPOCH_LENGTH))) HASH_BYTES)
     (get_cache_size block_number)"
proof -
  have "(512::nat) dvd CACHE_BYTES_INIT" "(512::nat) dvd CACHE_BYTES_GROWTH"
    by (simp_all add: CACHE_BYTES_INIT_def CACHE_BYTES_GROWTH_def)
  from size_start [OF this, of HASH_BYTES "block_number div EPOCH_LENGTH"]
  show ?thesis unfolding get_cache_size_def
    by (intro cache_size_loop_post) (simp_all add: HASH_BYTES_def)
qed

lemma get_full_size_post:
  "size_loop_post MIX_BYTES
     (sub64 (add64 DATASET_BYTES_INIT (mul64 DATASET_BYTES_GROWTH (block_number div EPOCH_LENGTH))) MIX_BYTES)
     (get_full_size block_number)"
proof -
  have "(512::nat) dvd DATASET_BYTES_INIT" "(512::nat) dvd DATASET_BYTES_GROWTH"
    by (simp_all add: DATASET_BYTES_INIT_def DATASET_BYTES_GROWTH_def)
  from size_start [OF this, of MIX_BYTES "block_number div EPOCH_LENGTH"]
  show ?thesis unfolding get_full_size_def
    by (intro full_size_loop_post) (simp_all add: MIX_BYTES_def)
qed

lemma start_exact:
  assumes "a + g * e < 2 ^ 64" "u \<le> a"
  shows "sub64 (add64 a (mul64 g e)) u = a + g * e - u"
proof -
  have "g * e < 2 ^ 64" using assms(1) by simp
  then have "mul64 g e = g * e" by (simp add: mul64_def)
  then have "add64 a (mul64 g e) = a + g * e" using assms(1) by (simp add: add64_def)
  then show ?thesis using assms by (simp add: sub64_exact)
qed


lemma is_prime_262139: "is_prime 262139"
  by (simp add: is_prime_def is_prime_loop.simps)

lemma is_prime_262147: "is_prime 262147"
  by (simp add: is_prime_def is_prime_loop.simps)

lemma not_prime_cache0: "\<not> is_prime 262143" "\<not> is_prime 262141"
  by (simp_all add: is_prime_def is_prime_loop.simps)

lemma cache_size_loop_16777152: "cache_size_loop 16777152 = 16776896"
proof -
  have "cache_size_loop 16777152 = cache_size_loop 16777024"
    using not_prime_cache0(1) by (subst cache_size_loop.simps) (simp add: HASH_BYTES_def sub64_def)
  also have "\<dots> = cache_size_loop 16776896"
    using not_prime_cache0(2) by (subst cache_size_loop.simps) (simp add: HASH_BYTES_def sub64_def)
  also have "\<dots> = 16776896"
    using is_prime_262139 by (subst cache_size_loop.simps) (simp add: HASH_BYTES_def)
  finally show ?thesis .
qed

lemma get_cache_size_0: "get_cache_size 0 = 16776896"
  by (simp add: get_cache_size_def constants_defs add64_def mul64_def sub64_def
      cache_size_loop_16777152)

lemma get_cache_size_wrapped: "get_cache_size (EPOCH_LENGTH * 2 ^ 47) = 16776896"
  by (simp add: get_cache_size_def constants_defs add64_def mul64_def sub64_def
      cache_size_loop_16777152)


lemma is_prime_8388593: "is_prime 8388593"
  by (simp add: is_prime_def is_prime_loop.simps)

lemma not_prime_dag0:
  "\<not> is_prime 8388607" "\<not> is_prime 8388605" "\<not> is_prime 8388603" "\<not> is_prime 8388601"
  "\<not> is_prime 8388599" "\<not> is_prime 8388597" "\<not> is_prime 8388595"
  by (simp_all add: is_prime_def is_prime_loop.simps)

lemma full_size_loop_skip:
  "\<not> is_prime (s div 128) \<Longrightarrow> 256 \<le> s \<Longrightarrow> s < 2 ^ 64 \<Longrightarrow>
   full_size_loop s = full_size_loop (s - 256)"
  by (subst full_size_loop.simps) (simp add: MIX_BYTES_def sub64_exact)

lemma full_size_loop_1073741696: "full_size_loop 1073741696 = 1073739904"
proof -
  have "full_size_loop 1073741696 = full_size_loop 1073741440"
    using not_prime_dag0(1) by (subst full_size_loop_skip) simp_all
  also have "\<dots> = full_size_loop 1073741184"
    using not_prime_dag0(2) by (subst full_size_loop_skip) simp_all
  also have "\<dots> = full_size_loop 1073740928"
    using not_prime_dag0(3) by (subst full_size_loop_skip) simp_all
  also have "\<dots> = full_size_loop 1073740672"
    using not_prime_dag0(4) by (subst full_size_loop_skip) simp_all
  also have "\<dots> = full_size_loop 1073740416"
    using not_prime_dag0(5) by (subst full_size_loop_skip) simp_all
  also have "\<dots> = full_size_loop 1073740160"
    using not_prime_dag0(6) by (subst full_size_loop_skip) simp_all
  also have "\<dots> = full_size_loop 1073739904"
    using not_prime_dag0(7) by (subst full_size_loop_skip) simp_all
  also have "\<dots> = 1073739904"
    using is_prime_8388593 by (subst full_size_loop.simps) (simp add: MIX_BYTES_def)
  finally show ?thesis .
qed

lemma get_full_size_0: "get_full_size 0 = 1073739904"
  by (simp add: get_full_size_def constants_defs add64_def mul64_def sub64_def
      full_size_loop_1073741696)


text \<open>
  \<^bold>\<open>Claim C5\<close> (amended). For every block number, \<open>get_cache_size\<close> divided by
  \<open>HASH_BYTES\<close> and \<open>get_full_size\<close> divided by \<open>MIX_BYTES\<close> are prime. For every
  epoch whose initial value \<open>CACHE_BYTES_INIT + CACHE_BYTES_GROWTH * epoch\<close> (respectively
  \<open>DATASET_BYTES_INIT + DATASET_BYTES_GROWTH * epoch\<close>) stays below \<open>2 ^ 64\<close>, the size is
  the largest value of the form initial value minus \<open>HASH_BYTES\<close> (\<open>MIX_BYTES\<close>) minus
  \<open>k * 2 * HASH_BYTES\<close> (\<open>k * 2 * MIX_BYTES\<close>) with that quotient prime. The cache size
  of epoch 0 is 16776896 bytes and the DAG size of epoch 0 is 1073739904 bytes.
\<close>

theorem sizes_prime_and_largest:
  "prime_nat (get_cache_size block_number div HASH_BYTES) \<and>
   prime_nat (get_full_size block_number div MIX_BYTES) \<and>
   (CACHE_BYTES_INIT + CACHE_BYTES_GROWTH * (block_number div EPOCH_LENGTH) < 2 ^ 64 \<longrightarrow>
      largest_prime_size
        (CACHE_BYTES_INIT + CACHE_BYTES_GROWTH * (block_number div EPOCH_LENGTH) - HASH_BYTES)
        HASH_BYTES (get_cache_size block_number)) \<and>
   (DATASET_BYTES_INIT + DATASET_BYTES_GROWTH * (block_number div EPOCH_LENGTH) < 2 ^ 64 \<longrightarrow>
      largest_prime_size
        (DATASET_BYTES_INIT + DATASET_BYTES_GROWTH * (block_number div EPOCH_LENGTH) - MIX_BYTES)
        MIX_BYTES (get_full_size block_number)) \<and>
   get_cache_size 0 = 16776896 \<and> get_full_size 0 = 1073739904"
proof -
  let ?e = "block_number div EPOCH_LENGTH"
  have hb: "0 < HASH_BYTES" and mb: "0 < MIX_BYTES" by (simp_all add: constants_defs)
  have c1: "prime_nat (get_cache_size block_number div HASH_BYTES)"
    using size_loop_post_prime [OF hb get_cache_size_post] .
  have d1: "prime_nat (get_full_size block_number div MIX_BYTES)"
    using size_loop_post_prime [OF mb get_full_size_post] .
  have c2: "largest_prime_size (CACHE_BYTES_INIT + CACHE_BYTES_GROWTH * ?e - HASH_BYTES)
              HASH_BYTES (get_cache_size block_number)"
    if "CACHE_BYTES_INIT + CACHE_BYTES_GROWTH * ?e < 2 ^ 64"
  proof -
    have "HASH_BYTES \<le> CACHE_BYTES_INIT" by (simp add: constants_defs)
    from start_exact [OF that this]
    have s: "sub64 (add64 CACHE_BYTES_INIT (mul64 CACHE_BYTES_GROWTH ?e)) HASH_BYTES
             = CACHE_BYTES_INIT + CACHE_BYTES_GROWTH * ?e - HASH_BYTES" .
    have "(512::nat) dvd CACHE_BYTES_INIT" "(512::nat) dvd CACHE_BYTES_GROWTH"
      by (simp_all add: constants_defs)
    from size_start [OF this, of HASH_BYTES ?e]
    have "(CACHE_BYTES_INIT + CACHE_BYTES_GROWTH * ?e - HASH_BYTES) mod (2 * HASH_BYTES) = HASH_BYTES"
      unfolding s by (simp add: HASH_BYTES_def)
    from size_loop_post_largest [OF hb this] get_cache_size_post [of block_number]
    show ?thesis unfolding s by blast
  qed
  have d2: "largest_prime_size (DATASET_BYTES_INIT + DATASET_BYTES_GROWTH * ?e - MIX_BYTES)
              MIX_BYTES (get_full_size block_number)"
    if "DATASET_BYTES_INIT + DATASET_BYTES_GROWTH * ?e < 2 ^ 64"
  proof -
    have "MIX_BYTES \<le> DATASET_BYTES_INIT" by (simp add: constants_defs)
    from start_exact [OF that this]
    have s: "sub64 (add64 DATASET_BYTES_INIT (mul64 DATASET_BYTES_GROWTH ?e)) MIX_BYTES
             = DATASET_BYTES_INIT + DATASET_BYTES_GROWTH * ?e - MIX_BYTES" .
    have "(512::nat) dvd DATASET_BYTES_INIT" "(512::nat) dvd DATASET_BYTES_GROWTH"
      by (simp_all add: constants_defs)
    from size_start [OF this, of MIX_BYTES ?e]
    have "(DATASET_BYTES_INIT + DATASET_BYTES_GROWTH * ?e - MIX_BYTES) mod (2 * MIX_BYTES) = MIX_BYTES"
      unfolding s by (simp add: MIX_BYTES_def)
    from size_loop_post_largest [OF mb this] get_full_size_post [of block_number]
    show ?thesis unfolding s by blast
  qed
  from c1 d1 c2 d2 get_cache_size_0 get_full_size_0 show ?thesis by blast
qed


text \<open>The theorem at block 30000 (epoch 1), where neither initial value overflows.\<close>

theorem sizes_prime_and_largest_witness:
  "CACHE_BYTES_INIT + CACHE_BYTES_GROWTH * (30000 div EPOCH_LENGTH) < 2 ^ 64 \<and>
   DATASET_BYTES_INIT + DATASET_BYTES_GROWTH * (30000 div EPOCH_LENGTH) < 2 ^ 64 \<and>
   prime_nat (get_cache_size 30000 div HASH_BYTES) \<and>
   prime_nat (get_full_size 30000 div MIX_BYTES) \<and>
   largest_prime_size (CACHE_BYTES_INIT + CACHE_BYTES_GROWTH * (30000 div EPOCH_LENGTH) - HASH_BYTES)
     HASH_BYTES (get_cache_size 30000) \<and>
   largest_prime_size (DATASET_BYTES_INIT + DATASET_BYTES_GROWTH * (30000 div EPOCH_LENGTH) - MIX_BYTES)
     MIX_BYTES (get_full_size 30000)"
proof -
  have h1: "CACHE_BYTES_INIT + CACHE_BYTES_GROWTH * (30000 div EPOCH_LENGTH) < 2 ^ 64"
    by (simp add: constants_defs)
  have h2: "DATASET_BYTES_INIT + DATASET_BYTES_GROWTH * (30000 div EPOCH_LENGTH) < 2 ^ 64"
    by (simp add: constants_defs)
  from h1 h2 sizes_prime_and_largest [of 30000] show ?thesis by blast
qed


text \<open>
  Claim C5 as stated, for every epoch, fails where the 64-bit arithmetic wraps: block
  \<open>EPOCH_LENGTH * 2 ^ 47\<close> is a \<^verbatim>\<open>uint64_t\<close>, its epoch is \<open>2 ^ 47\<close>, and the code returns
  the cache size of epoch 0, although \<open>16777408 = 64 * 262147\<close> is a larger value of the
  stated form with a prime quotient.
\<close>

theorem cache_size_not_largest_counterexample:
  "EPOCH_LENGTH * 2 ^ 47 < (2::nat) ^ 64 \<and>
   \<not> largest_prime_size
       (CACHE_BYTES_INIT + CACHE_BYTES_GROWTH * ((EPOCH_LENGTH * 2 ^ 47) div EPOCH_LENGTH) - HASH_BYTES)
       HASH_BYTES (get_cache_size (EPOCH_LENGTH * 2 ^ 47))"
proof -
  have p: "prime_nat (16777408 div HASH_BYTES)"
    using is_prime_262147 by (simp add: HASH_BYTES_def is_prime_iff_prime_nat)
  have f: "(16777408::nat) + 144115188075855870 * (2 * HASH_BYTES)
           = CACHE_BYTES_INIT + CACHE_BYTES_GROWTH * ((EPOCH_LENGTH * 2 ^ 47) div EPOCH_LENGTH) - HASH_BYTES"
    by (simp add: constants_defs)
  have "\<not> (16777408::nat) \<le> get_cache_size (EPOCH_LENGTH * 2 ^ 47)"
    unfolding get_cache_size_wrapped by simp
  with p f have "\<not> largest_prime_size
       (CACHE_BYTES_INIT + CACHE_BYTES_GROWTH * ((EPOCH_LENGTH * 2 ^ 47) div EPOCH_LENGTH) - HASH_BYTES)
       HASH_BYTES (get_cache_size (EPOCH_LENGTH * 2 ^ 47))"
    unfolding largest_prime_size_def by blast
  moreover have "EPOCH_LENGTH * 2 ^ 47 < (2::nat) ^ 64" by (simp add: constants_defs)
  ultimately show ?thesis by blast
qed

section \<open>The word codec and the seed (claims C6 and C4)\<close>

lemma hex_str_digit: "n < 16 \<Longrightarrow> hex_str n = [n]"
  by (simp add: hex_str.simps)

lemma encode_int_0: "encode_int 0 = []"
  by (simp add: encode_int_def)

lemma encode_int_digit: "x \<noteq> 0 \<Longrightarrow> unat x < 16 \<Longrightarrow> encode_int x = [ucast x]"
  by (simp add: encode_int_def hex_str_digit)

lemma zpad_4: "zpad [] 4 = [0, 0, 0, 0]" "zpad [a] 4 = [a, 0, 0, 0]"
  by (simp_all add: zpad_def numeral_eq_Suc)

lemma serialize_nonce_words:
  "serialize [0, 0, 0, 0, 0, 0, 0, 0, 1, 2, 3, 4, 5, 6, 7, 8] =
     [0, 0, 0, 0, 0, 0, 0, 0, 0, 0, 0, 0, 0, 0, 0, 0, 0, 0, 0, 0, 0, 0, 0, 0, 0, 0, 0, 0, 0, 0, 0, 0,
      1, 0, 0, 0, 2, 0, 0, 0, 3, 0, 0, 0, 4, 0, 0, 0, 5, 0, 0, 0, 6, 0, 0, 0, 7, 0, 0, 0, 8, 0, 0, 0]"
  by (simp add: serialize_def encode_int_0 encode_int_digit zpad_4)

lemma header_seed_nonce_words:
  "header_seed [0, 0, 0, 0, 0, 0, 0, 0] 0x0102030405060708
     = [0, 0, 0, 0, 0, 0, 0, 0, 1, 2, 3, 4, 5, 6, 7, 8]"
  by code_simp

text \<open>
  \<^bold>\<open>Claim C6\<close> (the code differs). The claim reads a 32-bit word from its four bytes as
  \<open>b0 | b1<<8 | b2<<16 | b3<<24\<close> and has \<open>hashimoto\<close> append the nonce to the header as 8
  bytes, least significant first, for a 40-byte input. In the code \<open>decode_int\<close> puts the
  first byte highest, \<open>b0<<24 | b1<<16 | b2<<8 | b3\<close>, so the bytes 01 00 00 00 decode to
  \<open>0x01000000\<close> and not to 1; and \<open>hashimoto\<close> appends each byte of the nonce as a word of
  its own, most significant byte first, so that the input of the hash for an all-zero header
  of 8 words and the nonce \<open>0x0102030405060708\<close> has 64 bytes, the last 32 of them
  01 00 00 00 02 00 00 00 ... 08 00 00 00.
\<close>

theorem decode_int_and_nonce_big_endian:
  "decode_int [b0, b1, b2, b3]
     = push_bit 24 (ucast b0) OR push_bit 16 (ucast b1) OR push_bit 8 (ucast b2) OR ucast b3 \<and>
   decode_int [1, 0, 0, 0] = 0x01000000 \<and>
   serialize (header_seed [0, 0, 0, 0, 0, 0, 0, 0] 0x0102030405060708) =
     [0, 0, 0, 0, 0, 0, 0, 0, 0, 0, 0, 0, 0, 0, 0, 0, 0, 0, 0, 0, 0, 0, 0, 0, 0, 0, 0, 0, 0, 0, 0, 0,
      1, 0, 0, 0, 2, 0, 0, 0, 3, 0, 0, 0, 4, 0, 0, 0, 5, 0, 0, 0, 6, 0, 0, 0, 7, 0, 0, 0, 8, 0, 0, 0]"
  by (simp add: decode_int_def header_seed_nonce_words serialize_nonce_words)

text \<open>
  \<^bold>\<open>Claim C4\<close> (the code differs). The claim has the seed of epoch 0 be the 32 zero bytes of
  \<open>epoch0_seedhash\<close> and the seed of epoch 1 their hash. In the code the seed is built by the
  C-string constructor, which stops at the first zero byte: the seed of epoch 0 is the empty
  string, and the seed of epoch 1 is the re-serialized hash of the empty string.
\<close>

theorem get_seedhash_epoch0_empty:
  "get_seedhash H256 0 = [] \<and>
   length (get_seedhash H256 0) \<noteq> 32 \<and>
   get_seedhash H256 EPOCH_LENGTH = serialize (sha3_256_string H256 [])"
  by (simp add: get_seedhash_def epoch0_seedhash_def string_of_c_str_def EPOCH_LENGTH_def)

section \<open>Hashimoto (claims C10, C3 and C1)\<close>

lemma length_deserialize: "length (deserialize hash_size data) = hash_size div 4"
  by (simp add: deserialize_def)

lemma length_sha3_512: "length (sha3_512 H512 x) = 16"
  by (simp add: sha3_512_def hash_words_def hash_words_string_def length_deserialize)

lemma length_sha3_512_string: "length (sha3_512_string H512 x) = 16"
  by (simp add: sha3_512_string_def hash_words_string_def length_deserialize)

lemma length_sha3_256: "length (sha3_256 H256 x) = 8"
  by (simp add: sha3_256_def hash_words_def hash_words_string_def length_deserialize)

lemma length_fnv_zip: "length (fnv_zip mix item) = length mix"
  by (induction mix item rule: fnv_zip.induct) simp_all

lemma probe_index_bound:
  assumes "2 \<le> n" "j < MIX_BYTES div HASH_BYTES"
  shows "probe_index n s i mix + j < n"
proof -
  have j: "j < 2" using assms(2) by (simp add: constants_defs)
  have h: "0 < n div 2" using assms(1) by simp
  define x where "x = unat (fnv (ucast ((word_of_nat i :: u64) XOR scast (s ! 0))) (mix ! (i mod 32)))"
  have "x mod (n div 2) < n div 2" using h by simp
  then have "x mod (n div 2) * 2 + j < n" using j by linarith
  then show ?thesis by (simp add: probe_index_def constants_defs x_def Let_def)
qed

lemma lookup_all_cong:
  "(\<And>x. x \<in> set xs \<Longrightarrow> l1 x = l2 x) \<Longrightarrow> lookup_all l1 xs = lookup_all l2 xs"
  by (induction xs) (simp_all split: sum.splits)

lemma lookup_all_ok:
  "(\<And>x. x \<in> set xs \<Longrightarrow> \<exists>h. l x = Inr h) \<Longrightarrow> \<exists>newdata. lookup_all l xs = Inr newdata"
proof (induction xs)
  case Nil
  then show ?case by simp
next
  case (Cons x xs)
  from Cons.prems obtain h where h: "l x = Inr h" by force
  from Cons obtain nd where "lookup_all l xs = Inr nd" by force
  with h show ?case by simp
qed

lemma probes_below:
  assumes "n div (MIX_BYTES div HASH_BYTES) \<noteq> 0"
    and "x \<in> set (map (\<lambda>j. probe_index n s i mix + j) [0..<MIX_BYTES div HASH_BYTES])"
  shows "x < n"
proof -
  have n: "2 \<le> n" using assms(1) by (simp add: constants_defs)
  from assms(2) have "probe_index n s i mix \<le> x" "x - probe_index n s i mix < MIX_BYTES div HASH_BYTES"
    by auto
  with probe_index_bound [OF n, of "x - probe_index n s i mix" s i mix] show ?thesis by simp
qed

lemma access_step_cong:
  assumes "\<And>x. x < n \<Longrightarrow> l1 x = l2 x"
  shows "access_step l1 n s i mix = access_step l2 n s i mix"
proof (cases "n div (MIX_BYTES div HASH_BYTES) = 0")
  case True
  then show ?thesis by (simp add: access_step_def)
next
  case False
  have "lookup_all l1 (map (\<lambda>j. probe_index n s i mix + j) [0..<MIX_BYTES div HASH_BYTES])
        = lookup_all l2 (map (\<lambda>j. probe_index n s i mix + j) [0..<MIX_BYTES div HASH_BYTES])"
    by (rule lookup_all_cong) (rule assms, rule probes_below [OF False])
  with False show ?thesis by (simp add: access_step_def Let_def)
qed

lemma access_loop_cong:
  assumes "\<And>x. x < n \<Longrightarrow> l1 x = l2 x"
  shows "access_loop l1 n s accesses mix = access_loop l2 n s accesses mix"
proof (induction accesses arbitrary: mix)
  case Nil
  show ?case by simp
next
  case (Cons i accesses)
  have "access_step l1 n s i mix = access_step l2 n s i mix"
    using assms by (rule access_step_cong)
  with Cons show ?case by (simp split: sum.splits)
qed

lemma hashimoto_cong:
  assumes "\<And>x. x < full_size div HASH_BYTES \<Longrightarrow> l1 x = l2 x"
  shows "hashimoto H256 H512 header nonce full_size l1 = hashimoto H256 H512 header nonce full_size l2"
  unfolding hashimoto_def Let_def
  using access_loop_cong [of "full_size div HASH_BYTES" l1 l2, OF assms] by simp

lemma access_step_ok:
  assumes "2 \<le> n" "\<forall>x<n. \<exists>h. l x = Inr h"
  shows "\<exists>mix'. access_step l n s i mix = Inr mix'"
proof -
  have nz: "n div (MIX_BYTES div HASH_BYTES) \<noteq> 0" using assms(1) by (simp add: constants_defs)
  have "\<exists>nd. lookup_all l (map (\<lambda>j. probe_index n s i mix + j) [0..<MIX_BYTES div HASH_BYTES]) = Inr nd"
    by (rule lookup_all_ok) (use assms(2) probes_below [OF nz] in blast)
  with nz show ?thesis by (auto simp add: access_step_def Let_def)
qed

lemma access_loop_ok:
  assumes "2 \<le> n" "\<forall>x<n. \<exists>h. l x = Inr h"
  shows "\<exists>mix'. access_loop l n s accesses mix = Inr mix'"
proof (induction accesses arbitrary: mix)
  case Nil
  show ?case by simp
next
  case (Cons i accesses)
  from access_step_ok [OF assms] obtain m where "access_step l n s i mix = Inr m" by blast
  with Cons show ?case by simp
qed

lemma hashimoto_ok:
  assumes "2 \<le> full_size div HASH_BYTES" "\<forall>x<full_size div HASH_BYTES. \<exists>h. l x = Inr h"
  shows "\<exists>r. hashimoto H256 H512 header nonce full_size l = Inr r"
proof -
  from access_loop_ok [OF assms]
  obtain m where "access_loop l (full_size div HASH_BYTES)
      (sha3_512 H512 (header_seed header nonce)) [0..<ACCESSES]
      (concat (replicate (MIX_BYTES div HASH_BYTES) (sha3_512 H512 (header_seed header nonce)))) = Inr m"
    by blast
  then show ?thesis by (simp add: hashimoto_def Let_def)
qed

lemma generate_loop_items:
  "generate_loop H512 cache callback n i data = Inr dataset \<Longrightarrow> i \<le> n \<Longrightarrow> length data = i \<Longrightarrow>
   (\<And>x. x < i \<Longrightarrow> calc_dataset_item H512 cache x = Inr (data ! x)) \<Longrightarrow>
   length dataset = n \<and> (\<forall>x<n. calc_dataset_item H512 cache x = Inr (dataset ! x))"
proof (induction H512 cache callback n i data rule: generate_loop.induct)
  case (1 H512 cache callback n i data)
  show ?case
  proof (cases "i < n")
    case False
    with "1.prems" show ?thesis by (simp add: generate_loop.simps)
  next
    case True
    from "1.prems"(1) True obtain item where
      item: "calc_dataset_item H512 cache i = Inr item"
      and go: "\<not> (i mod CALLBACK_FREQUENCY = 0 \<and> \<not> callback i n dag_generation)"
      and rec: "generate_loop H512 cache callback n (i + 1) (data @ [item]) = Inr dataset"
      by (subst (asm) generate_loop.simps) (auto split: sum.splits if_splits)
    have "calc_dataset_item H512 cache x = Inr ((data @ [item]) ! x)" if "x < i + 1" for x
      using that "1.prems"(3,4) item by (cases "x = i") (auto simp: nth_append)
    with "1.IH" [OF True item go rec] True "1.prems"(3) show ?thesis by simp
  qed
qed

lemma access_step_length:
  "access_step l n s i mix = Inr mix' \<Longrightarrow> length mix' = length mix"
  by (auto simp: access_step_def Let_def length_fnv_zip split: if_splits sum.splits)

lemma length_access_loop:
  "access_loop l n s accesses mix = Inr mix' \<Longrightarrow> length mix' = length mix"
proof (induction accesses arbitrary: mix)
  case Nil
  then show ?case by simp
next
  case (Cons i accesses)
  then show ?case by (auto split: sum.splits dest: access_step_length)
qed

lemma length_compress_mix: "length (compress_mix mix) = (length mix + 3) div 4"
  by (simp add: compress_mix_def)

lemma length_object_bytes: "length (object_bytes k x) = k"
  by (simp add: object_bytes_def)

lemma length_concat_object_bytes: "length (concat (map (object_bytes 4) v)) = 4 * length v"
  by (induction v) (simp_all add: length_object_bytes)

lemma memcpy_h256_8:
  assumes "length v = 8"
  shows "memcpy_h256 v = take 8 (concat (map (object_bytes 4) v)) @ replicate 24 0"
  using assms by (simp add: memcpy_h256_def)

lemma length_memcpy_h256: "length (memcpy_h256 v) = 32"
  by (auto simp add: memcpy_h256_def Let_def length_concat_object_bytes min_def)

text \<open>A run on which every hash and every item is zero.\<close>

lemma decode_int_zeros: "decode_int (replicate k 0) = 0"
  by (simp add: decode_int_def)

lemma sha3_base_empty: "sha3_base k (\<lambda>_. []) x = replicate k 0"
  by (simp add: sha3_base_def)

lemma deserialize_zeros: "deserialize 64 (replicate 64 0) = replicate 16 0"
  by (simp add: deserialize_def decode_int_zeros map_replicate_const)

lemma deserialize_zeros_32: "deserialize 32 (replicate 32 0) = replicate 8 0"
  by (simp add: deserialize_def decode_int_zeros map_replicate_const)

lemma sha3_512_empty: "sha3_512 (\<lambda>_. []) x = replicate 16 0"
  by (simp add: sha3_512_def hash_words_def hash_words_string_def sha3_base_empty deserialize_zeros)

lemma sha3_512_string_empty: "sha3_512_string (\<lambda>_. []) x = replicate 16 0"
  by (simp add: sha3_512_string_def hash_words_string_def sha3_base_empty deserialize_zeros)

lemma sha3_256_empty: "sha3_256 (\<lambda>_. []) x = replicate 8 0"
  by (simp add: sha3_256_def hash_words_def hash_words_string_def sha3_base_empty deserialize_zeros_32)

lemma fnv_zip_zeros: "fnv_zip (replicate k 0) (replicate k 0) = replicate k 0"
  by (induction k) (simp_all add: fnv_def)

lemma lookup_all_zeros:
  "lookup_all (\<lambda>x. Inr (replicate 16 0)) [p, q] = Inr (replicate 32 0)"
  by (simp add: replicate_add [symmetric])

lemma mixhashes_upt: "[0..<MIX_BYTES div HASH_BYTES] = [0, 1]"
  by (simp add: constants_defs numeral_2_eq_2)

lemma access_step_zeros:
  "2 \<le> n \<Longrightarrow> access_step (\<lambda>x. Inr (replicate 16 0)) n s i (replicate 32 0) = Inr (replicate 32 0)"
  by (simp add: access_step_def Let_def mixhashes_upt replicate_add [symmetric] fnv_zip_zeros)
     (simp add: constants_defs)

lemma access_loop_zeros:
  "2 \<le> n \<Longrightarrow> access_loop (\<lambda>x. Inr (replicate 16 0)) n s accesses (replicate 32 0) = Inr (replicate 32 0)"
  by (induction accesses) (simp_all add: access_step_zeros)

lemma compress_mix_zeros: "compress_mix (replicate 32 0) = replicate 8 0"
  by (rule nth_equalityI) (simp_all add: compress_mix_def fnv_def)

lemma memcpy_h256_zeros: "memcpy_h256 (replicate 8 0) = replicate 32 0"
proof -
  have "object_bytes 4 (0::u32) = replicate 4 0"
    by (simp add: object_bytes_def map_replicate_const)
  then have "concat (map (object_bytes 4) (replicate 8 (0::u32))) = replicate 32 0"
    by (simp add: numeral_eq_Suc)
  then show ?thesis by (simp add: memcpy_h256_def replicate_add [symmetric])
qed

lemma hashimoto_zeros:
  "hashimoto (\<lambda>_. []) (\<lambda>_. []) header nonce 256 (\<lambda>x. Inr (replicate 16 0))
   = Inr \<lparr>result_value = replicate 32 0, result_mixhash = replicate 32 0\<rparr>"
proof -
  have "concat (replicate (MIX_BYTES div HASH_BYTES) (replicate 16 (0::u32))) = replicate 32 0"
    by (simp add: constants_defs numeral_2_eq_2 replicate_add [symmetric])
  then show ?thesis
    by (simp add: hashimoto_def Let_def sha3_512_empty sha3_256_empty access_loop_zeros
        compress_mix_zeros memcpy_h256_zeros HASH_BYTES_def)
qed

lemma generate_loop_run:
  "(\<And>x. x < n \<Longrightarrow> calc_dataset_item H512 cache x = Inr (f x)) \<Longrightarrow>
   (\<And>x. x < n \<Longrightarrow> callback x n dag_generation) \<Longrightarrow> i \<le> n \<Longrightarrow>
   generate_loop H512 cache callback n i data = Inr (data @ map f [i..<n])"
proof (induction H512 cache callback n i data rule: generate_loop.induct)
  case (1 H512 cache callback n i data)
  show ?case
  proof (cases "i < n")
    case False
    with "1.prems" show ?thesis by (simp add: generate_loop.simps)
  next
    case True
    have item: "calc_dataset_item H512 cache i = Inr (f i)" using True "1.prems"(1) by simp
    have go: "\<not> (i mod CALLBACK_FREQUENCY = 0 \<and> \<not> callback i n dag_generation)"
      using True "1.prems"(2) by simp
    have "generate_loop H512 cache callback n (i + 1) (data @ [f i])
          = Inr ((data @ [f i]) @ map f [i + 1..<n])"
      using "1.IH" [OF True item go] "1.prems" True by simp
    then show ?thesis
      using True item go by (subst generate_loop.simps) (simp add: upt_conv_Cons)
  qed
qed

lemma calc_dataset_item_empty_hash:
  "cache \<noteq> [] \<Longrightarrow> cache ! (i mod length cache) \<noteq> [] \<Longrightarrow>
   calc_dataset_item (\<lambda>_. []) cache i = Inr (replicate 16 0)"
  by (simp add: calc_dataset_item_def Let_def sha3_512_empty)

lemma generate_zeros:
  "generate (\<lambda>_. []) [replicate 16 0] 256 (\<lambda>_ _ _. True) = Inr (replicate 4 (replicate 16 0))"
proof -
  have "generate_loop (\<lambda>_. []) [replicate 16 0] (\<lambda>_ _ _. True) 4 0 []
        = Inr ([] @ map (\<lambda>_. replicate 16 0) [0..<4])"
    by (rule generate_loop_run) (simp_all add: calc_dataset_item_empty_hash)
  then show ?thesis by (simp add: generate_def HASH_BYTES_def map_replicate_const)
qed


text \<open>
  \<^bold>\<open>Claim C10\<close>. For every \<open>full_size\<close> with \<open>n = full_size / HASH_BYTES \<ge> 2\<close>: every probe
  index \<open>p\<close>, for every seed, access and mix, has \<open>p + j < n\<close> for the \<open>j\<close> below
  \<open>MIX_BYTES / HASH_BYTES\<close>; \<open>hashimoto\<close> run on a lookup that is defined below \<open>n\<close> only and
  undefined from \<open>n\<close> on returns a result, so it passes no index from \<open>n\<close> on to its lookup; and
  \<open>hashimoto_full\<close> on a DAG of at least \<open>n\<close> items returns a result, so it reads no item past
  the end.
\<close>

theorem hashimoto_lookups_in_bounds:
  assumes "2 \<le> full_size div HASH_BYTES"
  shows "(\<forall>s i mix j. j < MIX_BYTES div HASH_BYTES \<longrightarrow>
            probe_index (full_size div HASH_BYTES) s i mix + j < full_size div HASH_BYTES) \<and>
         (\<exists>r. hashimoto H256 H512 header nonce full_size
                 (\<lambda>x. if x < full_size div HASH_BYTES then Inr (f x) else Inl undefined_behaviour)
               = Inr r) \<and>
         (full_size div HASH_BYTES \<le> length dataset \<longrightarrow>
            (\<exists>r. hashimoto_full H256 H512 full_size dataset header nonce = Inr r))"
proof (intro conjI allI impI)
  fix s i mix j
  assume "j < MIX_BYTES div HASH_BYTES"
  with assms show "probe_index (full_size div HASH_BYTES) s i mix + j < full_size div HASH_BYTES"
    by (rule probe_index_bound)
next
  show "\<exists>r. hashimoto H256 H512 header nonce full_size
              (\<lambda>x. if x < full_size div HASH_BYTES then Inr (f x) else Inl undefined_behaviour) = Inr r"
    using assms by (rule hashimoto_ok) simp
next
  assume "full_size div HASH_BYTES \<le> length dataset"
  then show "\<exists>r. hashimoto_full H256 H512 full_size dataset header nonce = Inr r"
    unfolding hashimoto_full_def using assms by (intro hashimoto_ok) simp_all
qed


text \<open>The theorem at \<open>full_size = 256\<close> (four items), with hashes and items that are all zero.\<close>

theorem hashimoto_lookups_in_bounds_witness:
  "2 \<le> (256::nat) div HASH_BYTES \<and>
   probe_index (256 div HASH_BYTES) (replicate 16 0) 5 (replicate 32 0) + 1 < 256 div HASH_BYTES \<and>
   hashimoto (\<lambda>_. []) (\<lambda>_. []) (replicate 8 0) 0 256
     (\<lambda>x. if x < 256 div HASH_BYTES then Inr (replicate 16 0) else Inl undefined_behaviour)
     = Inr \<lparr>result_value = replicate 32 0, result_mixhash = replicate 32 0\<rparr> \<and>
   256 div HASH_BYTES \<le> length (replicate 4 (replicate 16 (0::u32))) \<and>
   hashimoto_full (\<lambda>_. []) (\<lambda>_. []) 256 (replicate 4 (replicate 16 0)) (replicate 8 0) 0
     = Inr \<lparr>result_value = replicate 32 0, result_mixhash = replicate 32 0\<rparr>"
proof -
  have n: "2 \<le> (256::nat) div HASH_BYTES" by (simp add: HASH_BYTES_def)
  have j: "1 < MIX_BYTES div HASH_BYTES" by (simp add: constants_defs)
  have len: "256 div HASH_BYTES \<le> length (replicate 4 (replicate 16 (0::u32)))"
    by (simp add: HASH_BYTES_def)
  note b = hashimoto_lookups_in_bounds [OF n, of "\<lambda>_. []" "\<lambda>_. []" "replicate 8 0" 0
      "\<lambda>x. replicate 16 0" "replicate 4 (replicate 16 0)"]
  have p: "probe_index (256 div HASH_BYTES) (replicate 16 0) 5 (replicate 32 0) + 1
           < 256 div HASH_BYTES"
    using b j by blast
  have "hashimoto (\<lambda>_. []) (\<lambda>_. []) (replicate 8 0) 0 256
          (\<lambda>x. if x < 256 div HASH_BYTES then Inr (replicate 16 0) else Inl undefined_behaviour)
        = hashimoto (\<lambda>_. []) (\<lambda>_. []) (replicate 8 0) 0 256 (\<lambda>x. Inr (replicate 16 0))"
    by (rule hashimoto_cong) simp
  then have g: "hashimoto (\<lambda>_. []) (\<lambda>_. []) (replicate 8 0) 0 256
          (\<lambda>x. if x < 256 div HASH_BYTES then Inr (replicate 16 0) else Inl undefined_behaviour)
        = Inr \<lparr>result_value = replicate 32 0, result_mixhash = replicate 32 0\<rparr>"
    by (simp add: hashimoto_zeros)
  have "hashimoto_full (\<lambda>_. []) (\<lambda>_. []) 256 (replicate 4 (replicate 16 0)) (replicate 8 0) 0
        = hashimoto (\<lambda>_. []) (\<lambda>_. []) (replicate 8 0) 0 256 (\<lambda>x. Inr (replicate 16 0))"
    unfolding hashimoto_full_def by (rule hashimoto_cong) (simp add: HASH_BYTES_def)
  then have f: "hashimoto_full (\<lambda>_. []) (\<lambda>_. []) 256 (replicate 4 (replicate 16 0)) (replicate 8 0) 0
        = Inr \<lparr>result_value = replicate 32 0, result_mixhash = replicate 32 0\<rparr>"
    by (simp add: hashimoto_zeros)
  from n p g len f show ?thesis by blast
qed


text \<open>
  \<^bold>\<open>Claim C3\<close>. When \<open>generate\<close> has built the DAG of \<open>sz\<close> bytes from a cache, then for every
  header and every nonce \<open>hashimoto_full\<close> on that DAG and \<open>hashimoto_light\<close> on that cache
  return the same outcome, and for \<open>sz\<close> of at least two items that outcome is a result, a
  pair of value and mix hash. The constructor \<open>dag_impl_t\<close> builds the DAG of every epoch by
  this \<open>generate\<close>, from the cache it has built before, with \<open>sz = get_full_size\<close>.
\<close>

theorem hashimoto_light_full_agree:
  assumes "generate H512 cache sz callback = Inr dataset"
  shows "hashimoto_full H256 H512 sz dataset header nonce
           = hashimoto_light H256 H512 sz cache header nonce \<and>
         (2 \<le> sz div HASH_BYTES \<longrightarrow>
            (\<exists>r. hashimoto_light H256 H512 sz cache header nonce = Inr r))"
proof -
  from assms have "generate_loop H512 cache callback (sz div HASH_BYTES) 0 [] = Inr dataset"
    by (simp add: generate_def)
  from generate_loop_items [OF this]
  have len: "length dataset = sz div HASH_BYTES"
    and items: "\<And>x. x < sz div HASH_BYTES \<Longrightarrow> calc_dataset_item H512 cache x = Inr (dataset ! x)"
    by simp_all
  have eq: "hashimoto_full H256 H512 sz dataset header nonce
              = hashimoto_light H256 H512 sz cache header nonce"
    unfolding hashimoto_full_def hashimoto_light_def
    by (rule hashimoto_cong) (simp add: len items)
  have "\<exists>r. hashimoto_light H256 H512 sz cache header nonce = Inr r" if "2 \<le> sz div HASH_BYTES"
    unfolding hashimoto_light_def using that by (rule hashimoto_ok) (simp add: items)
  with eq show ?thesis by blast
qed


text \<open>The theorem on a cache of one item and a DAG of four.\<close>

theorem hashimoto_light_full_agree_witness:
  "generate (\<lambda>_. []) [replicate 16 0] 256 (\<lambda>_ _ _. True) = Inr (replicate 4 (replicate 16 0)) \<and>
   hashimoto_full (\<lambda>_. []) (\<lambda>_. []) 256 (replicate 4 (replicate 16 0)) (replicate 8 0) 7
     = hashimoto_light (\<lambda>_. []) (\<lambda>_. []) 256 [replicate 16 0] (replicate 8 0) 7 \<and>
   2 \<le> (256::nat) div HASH_BYTES \<and>
   (\<exists>r. hashimoto_light (\<lambda>_. []) (\<lambda>_. []) 256 [replicate 16 0] (replicate 8 0) 7 = Inr r)"
proof -
  have n: "2 \<le> (256::nat) div HASH_BYTES" by (simp add: HASH_BYTES_def)
  from hashimoto_light_full_agree [OF generate_zeros, of "\<lambda>_. []" "replicate 8 0" 7] n generate_zeros
  show ?thesis by blast
qed

text \<open>
  \<^bold>\<open>Claim C1\<close> (the code differs). The claim has the result be the hash of the serialized
  seed \<open>s\<close> followed by the serialized \<open>cmix\<close>, and the pair returned be that 32-byte digest
  and the 32 bytes of \<open>cmix\<close>. In the code the value is computed from \<open>s\<close> alone,
  \<^verbatim>\<open>sha3_256(s)\<close>, whatever the lookups returned; and \<^verbatim>\<open>memcpy\<close> copies as many bytes as the
  vectors have words, 8, so that the last 24 bytes of the value and of the mix hash are zero.
\<close>

theorem hashimoto_digest_of_seed_alone:
  assumes "hashimoto H256 H512 header nonce full_size lookup = Inr r"
  shows "result_value r =
           take 8 (concat (map (object_bytes 4)
                     (sha3_256 H256 (sha3_512 H512 (header_seed header nonce)))))
           @ replicate 24 0 \<and>
         drop 8 (result_mixhash r) = replicate 24 0"
proof -
  let ?s = "sha3_512 H512 (header_seed header nonce)"
  from assms obtain mix where
    loop: "access_loop lookup (full_size div HASH_BYTES) ?s [0..<ACCESSES]
             (concat (replicate (MIX_BYTES div HASH_BYTES) ?s)) = Inr mix"
    and r: "r = \<lparr>result_value = memcpy_h256 (sha3_256 H256 ?s),
                 result_mixhash = memcpy_h256 (compress_mix mix)\<rparr>"
    by (auto simp: hashimoto_def Let_def split: sum.splits)
  have "length (concat (replicate (MIX_BYTES div HASH_BYTES) ?s)) = 32"
    by (simp add: constants_defs length_sha3_512 numeral_2_eq_2)
  with length_access_loop [OF loop] have "length mix = 32" by simp
  then have "length (compress_mix mix) = 8" by (simp add: length_compress_mix)
  then have m: "memcpy_h256 (compress_mix mix)
                = take 8 (concat (map (object_bytes 4) (compress_mix mix))) @ replicate 24 0"
    by (rule memcpy_h256_8)
  have "length (take 8 (concat (map (object_bytes 4) (compress_mix mix)))) = 8"
    using \<open>length (compress_mix mix) = 8\<close> by (simp add: length_concat_object_bytes)
  then have "drop 8 (memcpy_h256 (compress_mix mix)) = replicate 24 0"
    unfolding m by simp
  with r memcpy_h256_8 [OF length_sha3_256] show ?thesis by simp
qed


text \<open>The theorem on the all-zero run.\<close>

theorem hashimoto_digest_of_seed_alone_witness:
  "hashimoto (\<lambda>_. []) (\<lambda>_. []) (replicate 8 0) 0 256 (\<lambda>x. Inr (replicate 16 0))
     = Inr \<lparr>result_value = replicate 32 0, result_mixhash = replicate 32 0\<rparr> \<and>
   result_value \<lparr>result_value = replicate 32 0, result_mixhash = replicate 32 0\<rparr> =
     take 8 (concat (map (object_bytes 4)
        (sha3_256 (\<lambda>_. []) (sha3_512 (\<lambda>_. []) (header_seed (replicate 8 0) 0)))))
     @ replicate 24 0 \<and>
   drop 8 (result_mixhash \<lparr>result_value = replicate 32 0, result_mixhash = replicate 32 0\<rparr>)
     = replicate 24 0"
  using hashimoto_digest_of_seed_alone [OF hashimoto_zeros [of "replicate 8 0" 0]]
    hashimoto_zeros [of "replicate 8 0" 0] by blast




section \<open>The cache builder and cancellation (claim C9)\<close>


lemma mkcache_seed_loop_run:
  "(\<And>k. i \<le> k \<Longrightarrow> k < n \<Longrightarrow> callback k n cache_seeding) \<Longrightarrow> i \<le> n \<Longrightarrow>
   cache_shape i data \<Longrightarrow> 0 < i \<Longrightarrow>
   \<exists>data'. mkcache_seed_loop H512 callback n i data = Inr data' \<and> cache_shape n data'"
proof (induction H512 callback n i data rule: mkcache_seed_loop.induct)
  case (1 H512 callback n i data)
  show ?case
  proof (cases "i < n")
    case False
    with "1.prems" show ?thesis by (subst mkcache_seed_loop.simps) simp
  next
    case True
    have cb: "callback i n cache_seeding" using True "1.prems"(1) by simp
    have sh: "cache_shape (i + 1) (data @ [sha3_512 H512 (last data)])"
      using "1.prems"(3) by (simp add: cache_shape_def length_sha3_512)
    have "\<exists>data'. mkcache_seed_loop H512 callback n (i + 1) (data @ [sha3_512 H512 (last data)]) = Inr data'
            \<and> cache_shape n data'"
      using "1.IH" [OF True refl] cb "1.prems"(1) True sh by simp
    then show ?thesis using True cb by (subst mkcache_seed_loop.simps) (simp add: Let_def)
  qed
qed

lemma wrap_minus_one:
  assumes "0 < n" "n \<le> M"
  shows "(M - 1 + n) mod M = n - (1::nat)"
proof -
  have "M - 1 + n = (n - 1) + M" using assms by simp
  then have "(M - 1 + n) mod M = (n - 1) mod M" by (simp only: mod_add_self2)
  then show ?thesis using assms by simp
qed

lemma prev_index:
  assumes "j < n" "n < 2 ^ 63"
  shows "add64 (sub64 j 1) n mod n = (if j = 0 then n - 1 else j - 1)"
proof (cases "j = 0")
  case True
  have "sub64 0 1 = 2 ^ 64 - 1" by (simp add: sub64_def)
  moreover have "(2 ^ 64 - 1 + n) mod 2 ^ 64 = n - 1"
    using assms True by (intro wrap_minus_one) simp_all
  ultimately show ?thesis using True assms by (simp only: add64_def) simp
next
  case False
  have j: "j < 2 ^ 64" using assms by simp
  then have s: "sub64 j 1 = j - 1" using False by (intro sub64_exact) simp_all
  have lt: "j - 1 + n < 2 ^ 64" using assms by simp
  have "(j - 1 + n) mod n = (j - 1) mod n" by simp
  also have "\<dots> = j - 1" using assms by simp
  finally show ?thesis using False lt by (simp only: s add64_def mod_less) simp
qed

lemma mkcache_step_shape:
  assumes "cache_shape n data" "i < n" "j < n"
  shows "\<exists>data'. mkcache_step H512 n i j data = Inr data' \<and> cache_shape n data'"
proof -
  let ?v = "unat (scast (data ! j ! 0) :: u64) mod n"
  let ?prev = "add64 (sub64 j 1) n mod n"
  have n: "0 < n" using assms by simp
  have len: "length data = n" and all: "\<And>x. x < n \<Longrightarrow> length (data ! x) = 16"
    using assms(1) by (simp_all add: cache_shape_def)
  have v: "?v < n" and p: "?prev < n" using n by simp_all
  have "data ! j \<noteq> []" using all [OF assms(3)] by auto
  moreover have "\<not> length (data ! ?v) < length (data ! ?prev)" using all [OF v] all [OF p] by simp
  ultimately have "mkcache_step H512 n i j data =
      Inr ((data[?prev := map (\<lambda>count. (data ! ?prev ! count) XOR (data ! ?v ! count))
                 [0..<length (data ! ?prev)]])
           [i := sha3_512 H512 (map (\<lambda>count. (data ! ?prev ! count) XOR (data ! ?v ! count))
                 [0..<length (data ! ?prev)])])"
    using assms len by (simp add: mkcache_step_def Let_def)
  moreover have "cache_shape n ((data[?prev := map (\<lambda>count. (data ! ?prev ! count) XOR (data ! ?v ! count))
                 [0..<length (data ! ?prev)]])
           [i := sha3_512 H512 (map (\<lambda>count. (data ! ?prev ! count) XOR (data ! ?v ! count))
                 [0..<length (data ! ?prev)])])"
    using assms(1) all [OF p]
    by (auto simp add: cache_shape_def length_sha3_512 dest!: set_update_subset_insert [THEN subsetD])
  ultimately show ?thesis by blast
qed


lemma mkcache_round_run:
  "cache_shape n (fst st) \<Longrightarrow> i < n \<Longrightarrow>
   (\<And>k. snd st \<le> k \<Longrightarrow> k < snd st + (n - j) \<Longrightarrow> callback k (n * CACHE_ROUNDS) cache_generation) \<Longrightarrow>
   \<exists>data'. mkcache_round H512 callback n i j st = Inr (data', snd st + (n - j)) \<and> cache_shape n data'"
proof (induction H512 callback n i j st rule: mkcache_round.induct)
  case (1 H512 callback n i j st)
  show ?case
  proof (cases "j < n")
    case False
    with "1.prems" show ?thesis by (subst mkcache_round.simps) (cases st, simp)
  next
    case lt: True
    from mkcache_step_shape [OF "1.prems"(1,2) lt] obtain data' where
      st: "mkcache_step H512 n i j (fst st) = Inr data'" and sh: "cache_shape n data'" by blast
    have f: "i mod CALLBACK_FREQUENCY = 0" by (simp add: CALLBACK_FREQUENCY_def)
    have cb: "callback (snd st) (n * CACHE_ROUNDS) cache_generation"
      using "1.prems"(3) lt by simp
    have "\<exists>d. mkcache_round H512 callback n i (j + 1) (data', snd st + 1)
                = Inr (d, snd st + 1 + (n - (j + 1))) \<and> cache_shape n d"
      using "1.IH"(1) [OF lt st f] cb sh "1.prems"(2,3) by simp
    moreover have "snd st + 1 + (n - (j + 1)) = snd st + (n - j)" using lt by simp
    ultimately show ?thesis using lt st f cb by (subst mkcache_round.simps) simp
  qed
qed


lemma mkcache_round0_run:
  assumes "cache_shape n (fst st)" "i < n"
    "\<forall>k. snd st \<le> k \<and> k < snd st + n \<longrightarrow> callback k (n * CACHE_ROUNDS) cache_generation"
  shows "\<exists>data'. mkcache_round H512 callback n i 0 st = Inr (data', snd st + n) \<and> cache_shape n data'"
  using mkcache_round_run [where j = 0 and st = st and n = n and i = i and callback = callback] assms
  by simp


lemma mkcache_rounds_run:
  "cache_shape n (fst st) \<Longrightarrow> (\<And>i. i \<in> set rounds \<Longrightarrow> i < n) \<Longrightarrow>
   (\<And>k. snd st \<le> k \<Longrightarrow> k < snd st + n * length rounds \<Longrightarrow> callback k (n * CACHE_ROUNDS) cache_generation) \<Longrightarrow>
   \<exists>st'. mkcache_rounds H512 callback n rounds st = Inr st' \<and> cache_shape n (fst st')"
proof (induction rounds arbitrary: st)
  case Nil
  then show ?case by simp
next
  case (Cons i rounds)
  have i: "i < n" using Cons.prems(2) by simp
  have all: "\<forall>k. snd st \<le> k \<and> k < snd st + n \<longrightarrow> callback k (n * CACHE_ROUNDS) cache_generation"
    using Cons.prems(3) by simp
  from mkcache_round0_run [where callback = callback, OF Cons.prems(1) i all] obtain d where
    r: "mkcache_round H512 callback n i 0 st = Inr (d, snd st + n)" and sh: "cache_shape n d"
    by blast
  have "\<exists>st'. mkcache_rounds H512 callback n rounds (d, snd st + n) = Inr st' \<and> cache_shape n (fst st')"
    using Cons.IH [of "(d, snd st + n)"] sh Cons.prems(2,3) by simp
  with r show ?case by simp
qed


lemma cache_shape_first: "cache_shape 1 [sha3_512_string H512 seed]"
  by (simp add: cache_shape_def length_sha3_512_string)

lemma rounds_below: "CACHE_ROUNDS \<le> n \<Longrightarrow> i \<in> set [0..<CACHE_ROUNDS] \<Longrightarrow> i < n"
  by simp


lemma mkcache_run:
  assumes n: "CACHE_ROUNDS \<le> sz div HASH_BYTES"
    and go: "\<not> seeding_stop callback (sz div HASH_BYTES)" "\<not> generation_stop callback (sz div HASH_BYTES)"
  shows "\<exists>data. mkcache H512 sz seed callback = Inr data \<and> cache_shape (sz div HASH_BYTES) data"
proof -
  let ?n = "sz div HASH_BYTES"
  have n1: "1 \<le> ?n" using n by (simp add: CACHE_ROUNDS_def)
  have "\<And>k. 1 \<le> k \<Longrightarrow> k < ?n \<Longrightarrow> callback k ?n cache_seeding"
    using go(1) by (auto simp: seeding_stop_def)
  from mkcache_seed_loop_run [where callback = callback, OF this n1 cache_shape_first]
  obtain data where
    seed: "mkcache_seed_loop H512 callback ?n 1 [sha3_512_string H512 seed] = Inr data"
    and sh: "cache_shape ?n data" by (metis zero_less_one)
  have "\<exists>st'. mkcache_rounds H512 callback ?n [0..<CACHE_ROUNDS] (data, 0) = Inr st'
          \<and> cache_shape ?n (fst st')"
    by (rule mkcache_rounds_run) (use sh n go(2) in \<open>auto simp: generation_stop_def\<close>)
  with seed show ?thesis by (auto simp add: mkcache_def Let_def)
qed

lemma calc_dataset_item_ok:
  assumes "cache_shape n cache" "0 < n"
  shows "\<exists>item. calc_dataset_item H512 cache i = Inr item"
proof -
  have "cache \<noteq> []" using assms by (auto simp: cache_shape_def)
  moreover have "i mod length cache < length cache" using assms by (simp add: cache_shape_def)
  then have "length (cache ! (i mod length cache)) = 16" using assms(1) by (simp add: cache_shape_def)
  then have "cache ! (i mod length cache) \<noteq> []" by auto
  ultimately show ?thesis by (simp add: calc_dataset_item_def Let_def)
qed



lemma generate_run:
  assumes "cache_shape m cache" "0 < m" "\<not> generate_stop callback (sz div HASH_BYTES)"
  shows "\<exists>data. generate H512 cache sz callback = Inr data"
proof -
  define f where "f x = projr (calc_dataset_item H512 cache x)" for x
  have "calc_dataset_item H512 cache x = Inr (f x)" for x
  proof -
    from calc_dataset_item_ok [OF assms(1,2)] obtain item where
      "calc_dataset_item H512 cache x = Inr item" by blast
    then show ?thesis by (simp add: f_def)
  qed
  moreover have "\<And>x. x < sz div HASH_BYTES \<Longrightarrow> callback x (sz div HASH_BYTES) dag_generation"
    using assms(3) by (auto simp: generate_stop_def)
  ultimately have "generate_loop H512 cache callback (sz div HASH_BYTES) 0 []
      = Inr ([] @ map f [0..<sz div HASH_BYTES])"
    by (intro generate_loop_run) simp_all
  then show ?thesis by (simp add: generate_def)
qed


lemma cache_rounds_fit: "CACHE_ROUNDS \<le> get_cache_size block_number div HASH_BYTES"
proof -
  have "3 * HASH_BYTES \<le> get_cache_size block_number"
    using get_cache_size_post [of block_number] by (simp add: size_loop_post_def)
  then have "3 * HASH_BYTES div HASH_BYTES \<le> get_cache_size block_number div HASH_BYTES"
    by (rule div_le_mono)
  then show ?thesis by (simp add: constants_defs)
qed


lemma dag_impl_t_run:
  assumes "\<not> build_stop callback block_number"
  shows "\<exists>h. dag_impl_t H256 H512 block_number callback = Inr h"
proof -
  from assms have go: "\<not> seeding_stop callback (get_cache_size block_number div HASH_BYTES)"
    "\<not> generation_stop callback (get_cache_size block_number div HASH_BYTES)"
    and g: "\<not> generate_stop callback (get_full_size block_number div HASH_BYTES)"
    by (simp_all add: build_stop_def)
  from mkcache_run [OF cache_rounds_fit go] obtain data where
    data: "mkcache H512 (get_cache_size block_number) (get_seedhash H256 block_number) callback = Inr data"
    and sh: "cache_shape (get_cache_size block_number div HASH_BYTES) data" by blast
  have pos: "0 < get_cache_size block_number div HASH_BYTES"
    using cache_rounds_fit [of block_number] by (simp add: CACHE_ROUNDS_def)
  from generate_run [OF sh pos g] obtain d where
    "generate H512 data (get_full_size block_number) callback = Inr d" by blast
  with data show ?thesis by (simp add: dag_impl_t_def cache_impl_t_def)
qed



lemma save_items_run:
  "(\<And>k. count < k \<Longrightarrow> k \<le> count + length items \<Longrightarrow> callback k max_count dag_saving) \<Longrightarrow>
   save_items callback max_count items count fs
     = (fs @ concat (map (\<lambda>i. concat (map (object_bytes 4) i)) items), Inr (count + length items))"
proof (induction items arbitrary: count fs)
  case Nil
  then show ?case by simp
next
  case (Cons i items)
  have "callback (count + 1) max_count dag_saving" using Cons.prems by simp
  moreover have "save_items callback max_count items (count + 1) (fs @ concat (map (object_bytes 4) i))
    = ((fs @ concat (map (object_bytes 4) i)) @ concat (map (\<lambda>i. concat (map (object_bytes 4) i)) items),
       Inr (count + 1 + length items))"
    using Cons.prems by (intro Cons.IH) simp_all
  ultimately show ?case by (simp add: Let_def)
qed











lemma load_rejected: "load_header fs = Inl e \<Longrightarrow> load this fs callback = Inl e"
  by (simp add: load_def)


lemma get_cache_size_1: "get_cache_size (Suc 0) = 16776896"
  by (simp add: get_cache_size_def constants_defs add64_def mul64_def sub64_def
      cache_size_loop_16777152)

lemma get_full_size_1: "get_full_size (Suc 0) = 1073739904"
  by (simp add: get_full_size_def constants_defs add64_def mul64_def sub64_def
      full_size_loop_1073741696)

lemma DAG_MAGIC_BYTES_eq: "DAG_MAGIC_BYTES = [69, 71, 73, 72, 65, 83, 72, 95, 68, 65, 71]"
  by (simp add: DAG_MAGIC_BYTES_def)








section \<open>One step of the cache rounds (claim C2)\<close>

text \<open>
  \<^bold>\<open>Claim C2\<close> (the code differs). The claim has the step for item \<open>j\<close> store \<open>H512 u\<close> into
  item \<open>j\<close> and change no other item. In the code the step of round \<open>i\<close> for item \<open>j \<noteq> i\<close>
  leaves item \<open>j\<close> as it was, stores \<open>H512 u\<close> into item \<open>i\<close>, the index of the round, and,
  the XOR being made in place through a reference, also overwrites item \<open>(j - 1 + n) mod n\<close>
  with \<open>u\<close>.
\<close>

theorem mkcache_step_writes_round_index:
  assumes "cache_shape n data" "i < n" "j < n" "j \<noteq> i" "1 < n" "n < 2 ^ 63"
  shows "let prev = (if j = 0 then n - 1 else j - 1);
             v = unat (scast (data ! j ! 0) :: u64) mod n;
             u = map (\<lambda>count. (data ! prev ! count) XOR (data ! v ! count)) [0..<16]
         in \<exists>data'. mkcache_step H512 n i j data = Inr data' \<and>
              data' ! j = data ! j \<and>
              data' ! i = sha3_512 H512 u \<and>
              (prev \<noteq> i \<longrightarrow> data' ! prev = u \<and>
                 (\<forall>x. x \<noteq> i \<and> x \<noteq> prev \<longrightarrow> data' ! x = data ! x))"
proof -
  let ?prev = "if j = 0 then n - 1 else j - 1"
  let ?v = "unat (scast (data ! j ! 0) :: u64) mod n"
  let ?u = "map (\<lambda>count. (data ! ?prev ! count) XOR (data ! ?v ! count)) [0..<16]"
  have len: "length data = n" and all: "\<And>x. x < n \<Longrightarrow> length (data ! x) = 16"
    using assms(1) by (simp_all add: cache_shape_def)
  have p: "add64 (sub64 j 1) n mod n = ?prev" using assms(3,6) by (rule prev_index)
  have pn: "?prev < n" and pj: "?prev \<noteq> j" using assms(3,5) by auto
  have v: "?v < n" using assms(2) by simp
  have "data ! j \<noteq> []" using all [OF assms(3)] by auto
  moreover have "\<not> length (data ! ?v) < length (data ! ?prev)" using all [OF v] all [OF pn] by simp
  ultimately have step: "mkcache_step H512 n i j data = Inr ((data[?prev := ?u])[i := sha3_512 H512 ?u])"
    using assms(2,3) len all [OF pn] by (simp add: mkcache_step_def Let_def p del: One_nat_def)
  have "((data[?prev := ?u])[i := sha3_512 H512 ?u]) ! j = data ! j"
    using assms(4) pj by simp
  moreover have "((data[?prev := ?u])[i := sha3_512 H512 ?u]) ! i = sha3_512 H512 ?u"
    using assms(2) len by simp
  moreover have "((data[?prev := ?u])[i := sha3_512 H512 ?u]) ! ?prev = ?u" if "?prev \<noteq> i"
    using that pn len by simp
  moreover have "((data[?prev := ?u])[i := sha3_512 H512 ?u]) ! x = data ! x"
    if "x \<noteq> i \<and> x \<noteq> ?prev" for x
    using that by simp
  ultimately show ?thesis using step unfolding Let_def by blast
qed

text \<open>The theorem at a cache of four items, round 0 and item 2.\<close>

theorem mkcache_step_writes_round_index_witness:
  "cache_shape 4 small_cache \<and> (0::nat) < 4 \<and> (2::nat) < 4 \<and> (2::nat) \<noteq> 0 \<and> (1::nat) < 4 \<and>
   (4::nat) < 2 ^ 63 \<and>
   (let prev = (if (2::nat) = 0 then 4 - 1 else 2 - 1);
        v = unat (scast (small_cache ! 2 ! 0) :: u64) mod 4;
        u = map (\<lambda>count. (small_cache ! prev ! count) XOR (small_cache ! v ! count)) [0..<16]
    in \<exists>data'. mkcache_step (\<lambda>_. []) 4 0 2 small_cache = Inr data' \<and>
         data' ! 2 = small_cache ! 2 \<and>
         data' ! 0 = sha3_512 (\<lambda>_. []) u \<and>
         (prev \<noteq> 0 \<longrightarrow> data' ! prev = u \<and>
            (\<forall>x. x \<noteq> 0 \<and> x \<noteq> prev \<longrightarrow> data' ! x = small_cache ! x)))"
proof -
  have h: "cache_shape 4 small_cache" by (simp add: cache_shape_def small_cache_def)
  from mkcache_step_writes_round_index [OF h, of 0 2 "\<lambda>_. []"] h show ?thesis by simp
qed


section \<open>The registry (claim C8)\<close>

lemma get_dag_insert_result:
  assumes "get_dag_insert dag_cache block_number impl = (dag_cache', r)"
  shows "(\<exists>h. r = Inr h \<and> dag_cache' (block_number div EPOCH_LENGTH) = Some h) \<and>
         (\<forall>e h. dag_cache e = Some h \<longrightarrow> dag_cache' e = Some h)"
  using assms
  by (auto simp: get_dag_insert_def map_insert_def Let_def split: option.splits if_splits)

lemma get_dag_insert_established:
  "dag_cache (block_number div EPOCH_LENGTH) = Some h \<Longrightarrow>
   get_dag_insert dag_cache block_number impl = (dag_cache, Inr h)"
  by (simp add: get_dag_insert_def map_insert_def)

lemma get_dag_established:
  "dag_cache (block_number div EPOCH_LENGTH) = Some h \<Longrightarrow>
   get_dag build dag_cache block_number callback = (dag_cache, Inr h)"
  by (simp add: get_dag_def get_dag_find_def)

lemma step_keeps_entries:
  "step c c' \<Longrightarrow> fst c e = Some h \<Longrightarrow> fst c' e = Some h"
  by (induction rule: step.induct) (auto dest: get_dag_insert_result)

lemma steps_keep_entries:
  "step\<^sup>*\<^sup>* c c' \<Longrightarrow> fst c e = Some h \<Longrightarrow> fst c' e = Some h"
  by (induction rule: rtranclp_induct) (auto dest: step_keeps_entries)

lemma step_returned_is_registered:
  "step c c' \<Longrightarrow> returned_is_registered c \<Longrightarrow> returned_is_registered c'"
proof (induction rule: step.induct)
  case (inserted ts t block_number impl dag_cache dag_cache' h)
  from get_dag_insert_result [OF inserted.hyps(2)]
  have r: "dag_cache' (block_number div EPOCH_LENGTH) = Some h"
    and mono: "\<And>e h. dag_cache e = Some h \<Longrightarrow> dag_cache' e = Some h" by auto
  with inserted.prems show ?case by (auto simp: returned_is_registered_def)
next
  case (insert_failed ts t block_number impl dag_cache dag_cache' e)
  from get_dag_insert_result [OF insert_failed.hyps(2)] show ?case by auto
qed (auto simp: returned_is_registered_def get_dag_find_def)

lemma reachable_returned_is_registered: "reachable c \<Longrightarrow> returned_is_registered c"
proof (induction rule: reachable.induct)
  case init
  show ?case by (simp add: returned_is_registered_def)
next
  case (next_step c c')
  from next_step.hyps(2) next_step.IH show ?case by (rule step_returned_is_registered)
qed

lemma get_dag_registers:
  assumes "get_dag build dc b callback = (dc', Inr h)"
  shows "dc' (b div EPOCH_LENGTH) = Some h \<and>
         (\<forall>e h0. dc e = Some h0 \<longrightarrow> dc' e = Some h0) \<and>
         (\<forall>e. e \<noteq> b div EPOCH_LENGTH \<longrightarrow> dc' e = dc e)"
  using assms
  by (auto simp: get_dag_def get_dag_find_def get_dag_insert_def map_insert_def Let_def
           split: option.splits sum.splits if_splits)

lemma get_dag_steps:
  assumes "ts t = Called b" "get_dag build dc b callback = (dc', r)"
  shows "step\<^sup>*\<^sup>* (dc, ts)
           (dc', ts(t := (case r of Inr h \<Rightarrow> Returned b h | Inl e \<Rightarrow> Thrown b e)))"
proof (cases "get_dag_find dc b")
  case (Some h)
  with assms(2) have "dc' = dc" "r = Inr h" by (simp_all add: get_dag_def)
  moreover from assms(1) Some have "step (dc, ts) (dc, ts(t := Returned b h))" by (rule step.found)
  ultimately show ?thesis by simp
next
  case None
  with assms(1) have s1: "step (dc, ts) (dc, ts(t := Building b))" by (rule step.missing)
  let ?ts = "ts(t := Building b)"
  have b: "?ts t = Building b" by simp
  show ?thesis
  proof (cases "build b callback")
    case (Inl e)
    with assms(2) None have "dc' = dc" "r = Inl e" by (simp_all add: get_dag_def)
    moreover from b have "step (dc, ?ts) (dc, ?ts(t := Thrown b e))" by (rule step.cancelled)
    ultimately show ?thesis using s1 by simp
  next
    case (Inr impl)
    with assms(2) None have i: "get_dag_insert dc b impl = (dc', r)" by (simp add: get_dag_def)
    from b have s2: "step (dc, ?ts) (dc, ?ts(t := Built b impl))" by (rule step.constructed)
    let ?ts' = "?ts(t := Built b impl)"
    have b': "?ts' t = Built b impl" by simp
    have "step (dc, ?ts') (dc', ?ts'(t := (case r of Inr h \<Rightarrow> Returned b h | Inl e \<Rightarrow> Thrown b e)))"
    proof (cases r)
      case (Inl e)
      with i have "get_dag_insert dc b impl = (dc', Inl e)" by simp
      from step.insert_failed [where ts = "?ts'" and t = t, OF b' this] Inl show ?thesis by simp
    next
      case (Inr h)
      with i have "get_dag_insert dc b impl = (dc', Inr h)" by simp
      from step.inserted [where ts = "?ts'" and t = t, OF b' this] Inr show ?thesis by simp
    qed
    with s1 s2 show ?thesis by simp
  qed
qed

lemma steps_reachable: "step\<^sup>*\<^sup>* c c' \<Longrightarrow> reachable c \<Longrightarrow> reachable c'"
  by (induction rule: rtranclp_induct) (auto intro: reachable.next_step)

text \<open>
  \<^bold>\<open>Claim C8\<close>. The registry is a map from epochs to handles, so it holds at most one handle
  for an epoch. In every state that threads calling \<open>get_dag\<close> can reach from the empty
  registry, two calls for block numbers of the same epoch that have returned have returned
  the same handle; that handle is the one the registry holds for the epoch, it stays there
  in every later state, every later call of \<open>get_dag\<close> for a block number of the epoch
  returns it without building, and a thread that has built a handle of its own for the
  epoch gets the established one from the insertion, its own being dropped.
  The function \<open>get_dag\<close> itself, on any registry: the handle it returns is the one the
  registry holds for the epoch afterwards, no entry of the registry is changed or removed,
  and every later call for a block number of the epoch, on the registry it leaves, returns
  that handle again. And a call of \<open>get_dag\<close> is a run of the steps of one thread: from a
  reachable state in which a thread has called, the outcome of \<open>get_dag\<close> on the registry of
  that state is reached by steps of that thread, so it is a reachable state too.
\<close>

theorem registry_single_handle:
  assumes "reachable (dag_cache :: 'h dag_cache_map, ts)"
  shows "(ts t1 = Returned b1 h1 \<and> ts t2 = Returned b2 h2 \<and>
            b1 div EPOCH_LENGTH = b2 div EPOCH_LENGTH \<longrightarrow> h1 = h2) \<and>
         (ts t1 = Returned b1 h1 \<longrightarrow>
            dag_cache (b1 div EPOCH_LENGTH) = Some h1 \<and>
            (\<forall>b build callback. b div EPOCH_LENGTH = b1 div EPOCH_LENGTH \<longrightarrow>
               get_dag build dag_cache b callback = (dag_cache, Inr h1)) \<and>
            (\<forall>b impl. b div EPOCH_LENGTH = b1 div EPOCH_LENGTH \<longrightarrow>
               get_dag_insert dag_cache b impl = (dag_cache, Inr h1)) \<and>
            (\<forall>c'. step\<^sup>*\<^sup>* (dag_cache, ts) c' \<longrightarrow> fst c' (b1 div EPOCH_LENGTH) = Some h1)) \<and>
         (\<forall>(dc :: 'h dag_cache_map) build b callback dc' h.
            get_dag build dc b callback = (dc', Inr h) \<longrightarrow>
              dc' (b div EPOCH_LENGTH) = Some h \<and>
              (\<forall>e h0. dc e = Some h0 \<longrightarrow> dc' e = Some h0) \<and>
              (\<forall>e. e \<noteq> b div EPOCH_LENGTH \<longrightarrow> dc' e = dc e) \<and>
              (\<forall>b' build' callback'. b' div EPOCH_LENGTH = b div EPOCH_LENGTH \<longrightarrow>
                 get_dag build' dc' b' callback' = (dc', Inr h))) \<and>
         (\<forall>t b build callback dc' r.
            ts t = Called b \<and> get_dag build dag_cache b callback = (dc', r) \<longrightarrow>
              step\<^sup>*\<^sup>* (dag_cache, ts)
                (dc', ts(t := (case r of Inr h \<Rightarrow> Returned b h | Inl e \<Rightarrow> Thrown b e))) \<and>
              reachable (dc', ts(t := (case r of Inr h \<Rightarrow> Returned b h | Inl e \<Rightarrow> Thrown b e))))"
proof -
  from assms have inv: "returned_is_registered (dag_cache, ts)"
    by (rule reachable_returned_is_registered)
  have reg: "dag_cache (b div EPOCH_LENGTH) = Some h" if "ts t = Returned b h" for t b h
    using inv that by (auto simp: returned_is_registered_def)
  have a: "h1 = h2" if "ts t1 = Returned b1 h1 \<and> ts t2 = Returned b2 h2 \<and>
            b1 div EPOCH_LENGTH = b2 div EPOCH_LENGTH"
    using reg [of t1 b1 h1] reg [of t2 b2 h2] that by simp
  have b: "dag_cache (b1 div EPOCH_LENGTH) = Some h1 \<and>
            (\<forall>b build callback. b div EPOCH_LENGTH = b1 div EPOCH_LENGTH \<longrightarrow>
               get_dag build dag_cache b callback = (dag_cache, Inr h1)) \<and>
            (\<forall>b impl. b div EPOCH_LENGTH = b1 div EPOCH_LENGTH \<longrightarrow>
               get_dag_insert dag_cache b impl = (dag_cache, Inr h1)) \<and>
            (\<forall>c'. step\<^sup>*\<^sup>* (dag_cache, ts) c' \<longrightarrow> fst c' (b1 div EPOCH_LENGTH) = Some h1)"
    if "ts t1 = Returned b1 h1"
  proof -
    from reg [OF that] have r: "dag_cache (b1 div EPOCH_LENGTH) = Some h1" .
    then show ?thesis
      by (auto simp: get_dag_established get_dag_insert_established dest: steps_keep_entries)
  qed
  have c: "dc' (b div EPOCH_LENGTH) = Some h \<and>
              (\<forall>e h0. dc e = Some h0 \<longrightarrow> dc' e = Some h0) \<and>
              (\<forall>e. e \<noteq> b div EPOCH_LENGTH \<longrightarrow> dc' e = dc e) \<and>
              (\<forall>b' build' callback'. b' div EPOCH_LENGTH = b div EPOCH_LENGTH \<longrightarrow>
                 get_dag build' dc' b' callback' = (dc', Inr h))"
    if "get_dag build dc b callback = (dc', Inr h)" for dc :: "'h dag_cache_map" and build b callback dc' h
  proof -
    from get_dag_registers [OF that] have r: "dc' (b div EPOCH_LENGTH) = Some h"
      and k: "\<forall>e h0. dc e = Some h0 \<longrightarrow> dc' e = Some h0"
      and o: "\<forall>e. e \<noteq> b div EPOCH_LENGTH \<longrightarrow> dc' e = dc e" by blast+
    from r have "get_dag build' dc' b' callback' = (dc', Inr h)"
      if "b' div EPOCH_LENGTH = b div EPOCH_LENGTH" for b' build' callback'
      using that by (simp add: get_dag_established)
    with r k o show ?thesis by blast
  qed
  have d: "step\<^sup>*\<^sup>* (dag_cache, ts)
                (dc', ts(t := (case r of Inr h \<Rightarrow> Returned b h | Inl e \<Rightarrow> Thrown b e))) \<and>
              reachable (dc', ts(t := (case r of Inr h \<Rightarrow> Returned b h | Inl e \<Rightarrow> Thrown b e)))"
    if "ts t = Called b \<and> get_dag build dag_cache b callback = (dc', r)" for t b build callback dc' r
  proof -
    from that have "step\<^sup>*\<^sup>* (dag_cache, ts)
                (dc', ts(t := (case r of Inr h \<Rightarrow> Returned b h | Inl e \<Rightarrow> Thrown b e)))"
      using get_dag_steps by blast
    with assms show ?thesis by (blast intro: steps_reachable)
  qed
  from a b c d show ?thesis by blast
qed

lemma race_reachable: "reachable (race_cache, race_threads)"
proof -
  let ?i = "\<lambda>t::nat. (Idle :: nat thread)"
  have "reachable (Map.empty :: nat dag_cache_map, ?i)" by (rule reachable.init)
  then have "reachable (Map.empty :: nat dag_cache_map, ?i(0 := Called 0))"
    by (rule reachable.next_step) (rule step.call, simp)
  then have "reachable (Map.empty :: nat dag_cache_map, (?i(0 := Called 0))(0 := Building 0))"
    by (rule reachable.next_step) (rule step.missing, simp_all add: get_dag_find_def)
  then have "reachable (Map.empty :: nat dag_cache_map, ?i(0 := Building 0))" by simp
  then have "reachable (Map.empty :: nat dag_cache_map, (?i(0 := Building 0))(1 := Called 5))"
    by (rule reachable.next_step) (rule step.call, simp)
  then have "reachable (Map.empty :: nat dag_cache_map,
      ((?i(0 := Building 0))(1 := Called 5))(1 := Building 5))"
    by (rule reachable.next_step) (rule step.missing, simp_all add: get_dag_find_def)
  then have "reachable (Map.empty :: nat dag_cache_map, ?i(0 := Building 0, 1 := Building 5))"
    by simp
  then have "reachable (Map.empty :: nat dag_cache_map,
      (?i(0 := Building 0, 1 := Building 5))(0 := Built 0 10))"
    by (rule reachable.next_step) (rule step.constructed, simp)
  then have "reachable (Map.empty :: nat dag_cache_map,
      ((?i(0 := Building 0, 1 := Building 5))(0 := Built 0 10))(1 := Built 5 20))"
    by (rule reachable.next_step) (rule step.constructed, simp)
  then have "reachable ([0 \<mapsto> 20] :: nat dag_cache_map,
      (((?i(0 := Building 0, 1 := Building 5))(0 := Built 0 10))(1 := Built 5 20))
        (1 := Returned 5 20))"
    by (rule reachable.next_step)
       (rule step.inserted [where impl = 20], simp_all add: get_dag_insert_def map_insert_def EPOCH_LENGTH_def)
  then have "reachable ([0 \<mapsto> 20] :: nat dag_cache_map,
      ((((?i(0 := Building 0, 1 := Building 5))(0 := Built 0 10))(1 := Built 5 20))
        (1 := Returned 5 20))(0 := Returned 0 20))"
    by (rule reachable.next_step)
       (rule step.inserted [where impl = 10], simp_all add: get_dag_insert_def map_insert_def EPOCH_LENGTH_def)
  moreover have "((((?i(0 := Building 0, 1 := Building 5))(0 := Built 0 10))(1 := Built 5 20))
        (1 := Returned 5 20))(0 := Returned 0 20) = race_threads"
    by (auto simp: race_threads_def fun_eq_iff)
  ultimately show ?thesis by (simp add: race_cache_def)
qed

lemma race_waiting_reachable: "reachable (race_cache, race_waiting)"
proof -
  have "race_threads 2 = Idle" by (simp add: race_threads_def)
  then have "step (race_cache, race_threads) (race_cache, race_threads(2 := Called 30000))"
    by (rule step.call)
  with race_reachable show ?thesis unfolding race_waiting_def by (rule reachable.next_step)
qed

text \<open>The theorem at the race of two threads for epoch 0, with a third thread that has
  called for epoch 1; and \<open>get_dag\<close> on the empty registry.\<close>

theorem registry_single_handle_witness:
  "reachable (race_cache, race_waiting) \<and>
   race_waiting 0 = Returned 0 20 \<and> race_waiting 1 = Returned 5 20 \<and>
   (0::nat) div EPOCH_LENGTH = 5 div EPOCH_LENGTH \<and>
   race_cache (0 div EPOCH_LENGTH) = Some 20 \<and>
   get_dag (\<lambda>b cb. Inr 30) race_cache 29999 (\<lambda>_ _ _. True) = (race_cache, Inr 20) \<and>
   get_dag_insert race_cache 7 10 = (race_cache, Inr 20) \<and>
   get_dag (\<lambda>b cb. Inr 30) (Map.empty :: nat dag_cache_map) 7 (\<lambda>_ _ _. True)
     = ([0 \<mapsto> 30], Inr 30) \<and>
   ([0 \<mapsto> 30] :: nat dag_cache_map) (7 div EPOCH_LENGTH) = Some 30 \<and>
   get_dag (\<lambda>b cb. Inr 40) ([0 \<mapsto> 30] :: nat dag_cache_map) 29999 (\<lambda>_ _ _. True)
     = ([0 \<mapsto> 30], Inr 30) \<and>
   race_waiting 2 = Called 30000 \<and>
   get_dag (\<lambda>b cb. Inr 40) race_cache 30000 (\<lambda>_ _ _. True) = (race_cache(1 \<mapsto> 40), Inr 40) \<and>
   step\<^sup>*\<^sup>* (race_cache, race_waiting) (race_cache(1 \<mapsto> 40), race_waiting(2 := Returned 30000 40)) \<and>
   reachable (race_cache(1 \<mapsto> 40), race_waiting(2 := Returned 30000 40))"
proof -
  have t: "race_waiting 0 = Returned 0 20" "race_waiting 1 = Returned 5 20"
    "race_waiting 2 = Called 30000"
    by (simp_all add: race_waiting_def race_threads_def)
  have e: "(0::nat) div EPOCH_LENGTH = 5 div EPOCH_LENGTH"
    "(29999::nat) div EPOCH_LENGTH = 0 div EPOCH_LENGTH" "(7::nat) div EPOCH_LENGTH = 0 div EPOCH_LENGTH"
    "(29999::nat) div EPOCH_LENGTH = 7 div EPOCH_LENGTH"
    by (simp_all add: EPOCH_LENGTH_def)
  have g1: "get_dag (\<lambda>b cb. Inr 30) (Map.empty :: nat dag_cache_map) 7 (\<lambda>_ _ _. True)
     = ([0 \<mapsto> 30], Inr 30)"
    by (simp add: get_dag_def get_dag_find_def get_dag_insert_def map_insert_def EPOCH_LENGTH_def)
  have g2: "get_dag (\<lambda>b cb. Inr 40) race_cache 30000 (\<lambda>_ _ _. True) = (race_cache(1 \<mapsto> 40), Inr 40)"
    by (simp add: get_dag_def get_dag_find_def get_dag_insert_def map_insert_def EPOCH_LENGTH_def
        race_cache_def)
  note r = registry_single_handle [OF race_waiting_reachable, of 0 0 20 1 5 20]
  note r2 = r [THEN conjunct2, THEN conjunct1, rule_format, OF t(1)]
  note r3 = r [THEN conjunct2, THEN conjunct2, THEN conjunct1, rule_format, OF g1]
  note r4 = r [THEN conjunct2, THEN conjunct2, THEN conjunct2, rule_format,
      of 2 30000 "\<lambda>b cb. Inr 40" "\<lambda>_ _ _. True" "race_cache(1 \<mapsto> 40)" "Inr 40"]
  from r2 have a1: "race_cache (0 div EPOCH_LENGTH) = Some 20" by (rule conjunct1)
  from r2 [THEN conjunct2, THEN conjunct1, rule_format, OF e(2)]
  have a2: "get_dag (\<lambda>b cb. Inr 30) race_cache 29999 (\<lambda>_ _ _. True) = (race_cache, Inr 20)" .
  from r2 [THEN conjunct2, THEN conjunct2, THEN conjunct1, rule_format, OF e(3)]
  have a3: "get_dag_insert race_cache 7 10 = (race_cache, Inr 20)" .
  note a = a1 a2 a3
  from r3 have b1: "([0 \<mapsto> 30] :: nat dag_cache_map) (7 div EPOCH_LENGTH) = Some 30"
    by (rule conjunct1)
  from r3 [THEN conjunct2, THEN conjunct2, THEN conjunct2, rule_format, OF e(4)]
  have b2: "get_dag (\<lambda>b cb. Inr 40) ([0 \<mapsto> 30] :: nat dag_cache_map) 29999 (\<lambda>_ _ _. True)
     = ([0 \<mapsto> 30], Inr 30)" .
  note b = b1 b2
  from r4 t(3) g2
  have c: "step\<^sup>*\<^sup>* (race_cache, race_waiting) (race_cache(1 \<mapsto> 40), race_waiting(2 := Returned 30000 40))"
    "reachable (race_cache(1 \<mapsto> 40), race_waiting(2 := Returned 30000 40))"
    by simp_all
  from race_waiting_reachable t e(1) a g1 b g2 c show ?thesis by (intro conjI)
qed

section \<open>The DAG file (claim C7)\<close>

lemma length_item_bytes:
  "(\<And>x. x \<in> set data \<Longrightarrow> length x = 16) \<Longrightarrow>
   length (concat (map (\<lambda>i. concat (map (object_bytes 4) i)) data)) = 64 * length data"
  by (induction data) (simp_all add: length_concat_object_bytes)

lemma save_run:
  "save this (\<lambda>_ _ _. True) =
     (save_header this
        @ concat (map (\<lambda>i. concat (map (object_bytes 4) i)) (cache_data (impl_cache this)))
        @ concat (map (\<lambda>i. concat (map (object_bytes 4) i)) (impl_data this)),
      Inr ())"
  by (simp add: save_def Let_def save_items_run)

lemma save_header_epoch0:
  assumes "impl_epoch this = 0" "impl_size this = 1073739904"
    "cache_size (impl_cache this) = 16776896"
  shows "save_header this =
     [69, 71, 73, 72, 65, 83, 72, 95, 68, 65, 71, 0,
      1, 0, 0, 0, 23, 0, 0, 0, 0, 0, 0, 0,
      0, 0, 0, 0, 0, 0, 0, 0,
      66, 0, 0, 0, 0, 0, 0, 0,
      2, 255, 255, 0, 0, 0, 0, 0,
      2, 255, 255, 0, 0, 0, 0, 0,
      130, 247, 255, 64, 0, 0, 0, 0,
      0]"
proof -
  have u: "[0..<4] = [0, 1, 2, 3]" "[0..<8] = [0, 1, 2, 3, 4, 5, 6, 7]"
    by (simp_all add: upt_rec)
  have h: "DAG_FILE_HEADER_SIZE = 66" by (simp add: DAG_FILE_HEADER_SIZE_def DAG_MAGIC_BYTES_eq)
  have a: "add64 66 16776896 = 16776962" "add64 16776962 1073739904 = 1090516866"
    by (simp_all add: add64_def)
  show ?thesis
    by (simp add: save_header_def Let_def assms h a DAG_MAGIC_BYTES_eq object_bytes_def u
        MAJOR_VERSION_def REVISION_def MINOR_VERSION_def drop_bit_eq_div)
qed

text \<open>The header \<open>save\<close> writes for a handle of epoch 0, followed by any bytes of the length
  of that handle's cache and DAG.\<close>

lemma load_header_saved_epoch0:
  assumes "length body = 16776896 + 1073739904"
  shows "load_header
     ([69, 71, 73, 72, 65, 83, 72, 95, 68, 65, 71, 0,
       1, 0, 0, 0, 23, 0, 0, 0, 0, 0, 0, 0,
       0, 0, 0, 0, 0, 0, 0, 0,
       66, 0, 0, 0, 0, 0, 0, 0,
       2, 255, 255, 0, 0, 0, 0, 0,
       2, 255, 255, 0, 0, 0, 0, 0,
       130, 247, 255, 64, 0, 0, 0, 0,
       0] @ body) = Inl (hash_exception ''DAG is corrupt'')"
    (is "load_header (?hdr @ body) = _")
proof -
  let ?fs = "?hdr @ body"
  have m: "string_of_c_str (take 11 ?fs @ [0]) = DAG_MAGIC_BYTES"
    by (simp add: string_of_c_str_def DAG_MAGIC_BYTES_eq)
  have v: "(bytes_object (take 4 (drop 12 ?fs)) :: u32) = MAJOR_VERSION"
    "(bytes_object (take 4 (drop 16 ?fs)) :: u32) = REVISION"
    by (simp_all add: bytes_object_def MAJOR_VERSION_def REVISION_def)
  have f: "unat (bytes_object (take 8 (drop 24 ?fs)) :: u64) = 0"
    "unat (bytes_object (take 8 (drop 32 ?fs)) :: u64) = 66"
    "unat (bytes_object (take 8 (drop 40 ?fs)) :: u64) = 16776962"
    "unat (bytes_object (take 8 (drop 48 ?fs)) :: u64) = 16776962"
    "unat (bytes_object (take 8 (drop 56 ?fs)) :: u64) = 1090516866"
    by (simp_all add: bytes_object_def)
  have l: "length ?fs = 1090516865" using assms by simp
  have b: "add64 (mul64 0 EPOCH_LENGTH) (Suc 0) = Suc 0" by (simp add: add64_def mul64_def)
  show ?thesis
    using assms
    by (simp add: load_header_def Let_def m v f l b get_cache_size_1 get_full_size_1
        del: append.simps take_append drop_append)
qed

lemma load_keeps_items:
  "load this fs callback = Inr h \<Longrightarrow>
   impl_data h = resize (impl_size h div HASH_BYTES) (impl_data this) \<and>
   cache_data (impl_cache h)
     = resize (cache_size (impl_cache h) div HASH_BYTES) (cache_data (impl_cache this))"
  by (auto simp: load_def cache_load_def Let_def split: sum.splits prod.splits)

text \<open>
  \<^bold>\<open>Claim C7\<close> (the code differs). The claim has a handle that is saved and loaded again come
  back the same. In the code \<open>get_dag_file\<close>, the only way from a file to a handle, returns
  no handle at all. The function \<open>load\<close> it was meant to call rejects the file that \<open>save\<close>
  wrote for a handle of epoch 0: \<open>save\<close> records the offsets from \<open>DAG_FILE_HEADER_SIZE\<close>,
  which is 66, while the header it writes has 65 bytes, so the end of the DAG that the header
  declares is one byte past the end of the file. And a file \<open>load\<close> accepts gives the handle
  none of its bytes: the items of the cache and of the DAG stay what \<open>resize\<close> made them.
\<close>

theorem load_rejects_saved_file:
  assumes "impl_epoch this = 0" "impl_size this = 1073739904"
    "cache_size (impl_cache this) = 16776896"
    "cache_shape (16776896 div HASH_BYTES) (cache_data (impl_cache this))"
    "cache_shape (1073739904 div HASH_BYTES) (impl_data this)"
  shows "get_dag_file file_path callback = None \<and>
         snd (save this (\<lambda>_ _ _. True)) = Inr () \<and>
         load that (fst (save this (\<lambda>_ _ _. True))) callback
           = Inl (hash_exception ''DAG is corrupt'') \<and>
         (\<forall>fs h. load that fs callback = Inr h \<longrightarrow>
            impl_data h = resize (impl_size h div HASH_BYTES) (impl_data that))"
proof -
  let ?C = "concat (map (\<lambda>i. concat (map (object_bytes 4) i)) (cache_data (impl_cache this)))"
  let ?D = "concat (map (\<lambda>i. concat (map (object_bytes 4) i)) (impl_data this))"
  have "length ?C = 64 * (16776896 div HASH_BYTES)"
    using assms(4) by (subst length_item_bytes) (simp_all add: cache_shape_def)
  moreover have "length ?D = 64 * (1073739904 div HASH_BYTES)"
    using assms(5) by (subst length_item_bytes) (simp_all add: cache_shape_def)
  ultimately have len: "length (?C @ ?D) = 16776896 + 1073739904"
    by (simp add: HASH_BYTES_def)
  have "load_header (fst (save this (\<lambda>_ _ _. True))) = Inl (hash_exception ''DAG is corrupt'')"
    unfolding save_run fst_conv save_header_epoch0 [OF assms(1-3)]
    by (rule load_header_saved_epoch0 [OF len])
  then have "load that (fst (save this (\<lambda>_ _ _. True))) callback
           = Inl (hash_exception ''DAG is corrupt'')"
    by (rule load_rejected)
  moreover have "snd (save this (\<lambda>_ _ _. True)) = Inr ()" by (simp add: save_run)
  moreover have "get_dag_file file_path callback = None" by (simp add: get_dag_file_def)
  ultimately show ?thesis using load_keeps_items by blast
qed

text \<open>The theorem at the handle of epoch 0 whose words are all zero.\<close>

theorem load_rejects_saved_file_witness:
  "impl_epoch zero_handle = 0 \<and> impl_size zero_handle = 1073739904 \<and>
   cache_size (impl_cache zero_handle) = 16776896 \<and>
   cache_shape (16776896 div HASH_BYTES) (cache_data (impl_cache zero_handle)) \<and>
   cache_shape (1073739904 div HASH_BYTES) (impl_data zero_handle) \<and>
   get_dag_file ''epoch0.dag'' (\<lambda>_ _ _. True) = None \<and>
   snd (save zero_handle (\<lambda>_ _ _. True)) = Inr () \<and>
   load zero_handle (fst (save zero_handle (\<lambda>_ _ _. True))) (\<lambda>_ _ _. True)
     = Inl (hash_exception ''DAG is corrupt'')"
proof -
  have h: "impl_epoch zero_handle = 0" "impl_size zero_handle = 1073739904"
    "cache_size (impl_cache zero_handle) = 16776896"
    "cache_shape (16776896 div HASH_BYTES) (cache_data (impl_cache zero_handle))"
    "cache_shape (1073739904 div HASH_BYTES) (impl_data zero_handle)"
    by (simp_all add: zero_handle_def cache_shape_def HASH_BYTES_def)
  from load_rejects_saved_file [OF h, of "''epoch0.dag''" "\<lambda>_ _ _. True" zero_handle] h
  show ?thesis by blast
qed

end
